theory Spec2Isabelle
  imports Complex_Main "HOL-Library.Sublist"
begin

section \<open>The currency ingestion script as a functional model\<close>

text \<open>
  This theory embeds \<^verbatim>\<open>infra/glue/scripts/currency_bootstrap.py\<close>: the chunk splitter
  (\<^verbatim>\<open>month_end\<close>, \<^verbatim>\<open>split_into_month_aligned_chunks\<close>), the retrying API call
  (\<^verbatim>\<open>call_timeframe\<close>), the upload helper (\<^verbatim>\<open>upload_json_to_s3\<close>) and the control flow
  of \<^verbatim>\<open>main\<close>. Every \<^verbatim>\<open>raise\<close> of the script, and every exception of the library
  calls it makes, is a value of the type \<open>error\<close>; the two outside parties (the HTTP
  API and the object store) are oracles of a record \<open>env\<close>; what the script does to them is
  logged in a record \<open>world\<close> that is threaded through the calls. The \<^verbatim>\<open>while\<close> loop of the
  splitter is a partial function into \<open>option\<close>, where \<open>None\<close> is a loop that never ends.
  All definitions come first; the proofs follow.
\<close>

subsection \<open>JSON values and exceptions\<close>

text \<open>
  What \<^verbatim>\<open>r.json()\<close> returns: Python's \<^verbatim>\<open>None\<close>, \<^verbatim>\<open>bool\<close>, numbers, \<^verbatim>\<open>str\<close>,
  \<^verbatim>\<open>list\<close> and \<^verbatim>\<open>dict\<close>. A \<^verbatim>\<open>dict\<close> is an association list in key order, read with
  \<open>map_of\<close>. Numbers are exact rationals: the script only ever asks whether one is zero.
\<close>

datatype json =
    JNull
  | JBool bool
  | JNum rat
  | JStr string
  | JArr "json list"
  | JObj "(string \<times> json) list"

text \<open>
  The exception that ends one attempt of \<^verbatim>\<open>call_timeframe\<close> (lines 128 to 149): an
  exception of \<^verbatim>\<open>requests.get\<close>, \<^verbatim>\<open>RuntimeError("Non-JSON response from API")\<close>,
  \<^verbatim>\<open>RuntimeError("API returned success=false: ...")\<close> and
  \<^verbatim>\<open>RuntimeError("API error: ...")\<close>, each with the value of \<^verbatim>\<open>body.get("error")\<close>, and the
  \<^verbatim>\<open>HTTPError\<close> of \<^verbatim>\<open>r.raise_for_status()\<close>.
\<close>

datatype cause =
    TransportError
  | NonJSONResponse
  | ApiSuccessFalse "json option"
  | ApiError "json option"
  | HTTPError int

text \<open>
  The exceptions that leave a function of the script, one constructor for each place:
  \<^item> \<open>ValueError_date\<close>: \<^verbatim>\<open>date(y, m, d)\<close> with a field out of range (line 92);
  \<^item> \<open>OverflowError\<close>: \<^verbatim>\<open>timedelta(days=n)\<close> beyond 999999999 days, or a date plus a
    \<^verbatim>\<open>timedelta\<close> outside the range of \<^verbatim>\<open>date\<close> (lines 95, 110, 113);
  \<^item> \<open>SystemExit code\<close>: \<^verbatim>\<open>raise SystemExit(2)\<close> (line 210);
  \<^item> \<open>ValueError_isoformat\<close>: \<^verbatim>\<open>datetime.fromisoformat\<close> on a malformed date (line 214);
  \<^item> \<open>FetchFailed last_exc\<close>: \<^verbatim>\<open>RuntimeError("Failed to fetch timeframe ...")\<close>
    (line 157), the specification's FetchFailed;
  \<^item> \<open>ValueError_s3_path\<close>: \<^verbatim>\<open>ValueError("S3 path must start with s3://")\<close> (line 164);
  \<^item> \<open>WriteRejected\<close>: \<^verbatim>\<open>RuntimeError("Refusing to upload to script path")\<close> (line 166);
  \<^item> \<open>WriteFailed\<close>: any exception of \<^verbatim>\<open>upload_file\<close> (line 174);
  \<^item> \<open>NoDataIngested\<close>: \<^verbatim>\<open>RuntimeError("No raw JSON uploaded; ...")\<close> (line 256).
\<close>

datatype error =
    ValueError_date
  | OverflowError
  | SystemExit int
  | ValueError_isoformat
  | FetchFailed "cause option"
  | ValueError_s3_path
  | WriteRejected
  | WriteFailed
  | NoDataIngested

text \<open>Python's truth value of a JSON value (\<^verbatim>\<open>if x:\<close>).\<close>

fun truthy :: "json \<Rightarrow> bool" where
  "truthy JNull = False"
| "truthy (JBool b) = b"
| "truthy (JNum q) = (q \<noteq> 0)"
| "truthy (JStr s) = (s \<noteq> [])"
| "truthy (JArr xs) = (xs \<noteq> [])"
| "truthy (JObj kvs) = (kvs \<noteq> [])"

text \<open>\<^verbatim>\<open>isinstance(x, dict)\<close> and \<^verbatim>\<open>x.get(k)\<close>; the latter is only called on a dict.\<close>

fun is_dict :: "json \<Rightarrow> bool" where
  "is_dict (JObj kvs) = True"
| "is_dict v = False"

fun dict_get :: "json \<Rightarrow> string \<Rightarrow> json option" where
  "dict_get (JObj kvs) k = map_of kvs k"
| "dict_get v k = None"

text \<open>\<^verbatim>\<open>k in d and d.get(k)\<close>, read as a truth value (lines 143 and 239).\<close>

definition field_nonempty :: "json \<Rightarrow> string \<Rightarrow> bool" where
  "field_nonempty d k = (case dict_get d k of None \<Rightarrow> False | Some v \<Rightarrow> truthy v)"

subsection \<open>Python's \<^verbatim>\<open>datetime.date\<close>\<close>

text \<open>
  The script computes with \<^verbatim>\<open>datetime.date\<close> and \<^verbatim>\<open>timedelta\<close>. A date holds a year
  from 1 to 9999, a month and a day; it is compared field by field; adding a
  \<^verbatim>\<open>timedelta\<close> goes through the proleptic Gregorian ordinal (day 1 is 0001-01-01) and
  raises \<^verbatim>\<open>OverflowError\<close> outside 1 to 3652059. The definitions follow the library's own
  \<^verbatim>\<open>_is_leap\<close>, \<^verbatim>\<open>_days_before_year\<close>, \<^verbatim>\<open>_days_in_month\<close>, \<^verbatim>\<open>_days_before_month\<close>,
  \<^verbatim>\<open>_ymd2ord\<close> and \<^verbatim>\<open>_ord2ymd\<close>, with Python's floor division as \<open>div\<close> on \<open>int\<close>.
\<close>

definition MINYEAR :: int where
  "MINYEAR = 1"

definition MAXYEAR :: int where
  "MAXYEAR = 9999"

definition MAXORDINAL :: int where
  "MAXORDINAL = 3652059"

definition DAYS_IN_MONTH :: "int list" where
  "DAYS_IN_MONTH = [-1, 31, 28, 31, 30, 31, 30, 31, 31, 30, 31, 30, 31]"

definition DAYS_BEFORE_MONTH :: "int list" where
  "DAYS_BEFORE_MONTH = [-1, 0, 31, 59, 90, 120, 151, 181, 212, 243, 273, 304, 334]"

definition is_leap :: "int \<Rightarrow> bool" where
  "is_leap y \<longleftrightarrow> y mod 4 = 0 \<and> (y mod 100 \<noteq> 0 \<or> y mod 400 = 0)"

definition days_before_year :: "int \<Rightarrow> int" where
  "days_before_year y = (let y1 = y - 1 in y1 * 365 + y1 div 4 - y1 div 100 + y1 div 400)"

definition days_in_month :: "int \<Rightarrow> int \<Rightarrow> int" where
  "days_in_month y m = (if m = 2 \<and> is_leap y then 29 else DAYS_IN_MONTH ! nat m)"

definition days_before_month :: "int \<Rightarrow> int \<Rightarrow> int" where
  "days_before_month y m = DAYS_BEFORE_MONTH ! nat m + (if m > 2 \<and> is_leap y then 1 else 0)"

definition ymd2ord :: "int \<Rightarrow> int \<Rightarrow> int \<Rightarrow> int" where
  "ymd2ord y m d = days_before_year y + days_before_month y m + d"

text \<open>
  The second half of \<^verbatim>\<open>_ord2ymd\<close>: month and day from the day of the year \<open>n\<close> (counted
  from 0), by an estimate \<^verbatim>\<open>(n + 50) >> 5\<close> that is at most one month too large.
\<close>

definition month_day :: "bool \<Rightarrow> int \<Rightarrow> int \<times> int" where
  "month_day leapyear n =
     (let m = (n + 50) div 32;
          preceding = DAYS_BEFORE_MONTH ! nat m + (if m > 2 \<and> leapyear then 1 else 0)
      in if preceding > n
         then (m - 1,
               n - (preceding - (DAYS_IN_MONTH ! nat (m - 1)
                                 + (if m - 1 = 2 \<and> leapyear then 1 else 0))) + 1)
         else (m, n - preceding + 1))"

definition ord2ymd :: "int \<Rightarrow> int \<times> int \<times> int" where
  "ord2ymd n =
     (let n0 = n - 1;
          n400 = n0 div 146097; r1 = n0 mod 146097;
          n100 = r1 div 36524; r2 = r1 mod 36524;
          n4 = r2 div 1461; r3 = r2 mod 1461;
          n1 = r3 div 365; r4 = r3 mod 365;
          y = n400 * 400 + 1 + (n100 * 100 + n4 * 4 + n1)
      in if n1 = 4 \<or> n100 = 4 then (y - 1, 12, 31)
         else (y, month_day (n1 = 3 \<and> (n4 \<noteq> 24 \<or> n100 = 3)) r4))"

text \<open>The check of the constructor \<^verbatim>\<open>date(y, m, d)\<close>: every date object satisfies it.\<close>

definition valid_ymd :: "int \<Rightarrow> int \<Rightarrow> int \<Rightarrow> bool" where
  "valid_ymd y m d \<longleftrightarrow>
     MINYEAR \<le> y \<and> y \<le> MAXYEAR \<and> 1 \<le> m \<and> m \<le> 12 \<and> 1 \<le> d \<and> d \<le> days_in_month y m"

record date =
  year :: int
  month :: int
  day :: int

definition valid_date :: "date \<Rightarrow> bool" where
  "valid_date d \<longleftrightarrow> valid_ymd (year d) (month d) (day d)"

definition mk_date :: "int \<Rightarrow> int \<Rightarrow> int \<Rightarrow> error + date" where
  "mk_date y m d =
     (if valid_ymd y m d then Inr \<lparr>year = y, month = m, day = d\<rparr> else Inl ValueError_date)"

definition toordinal :: "date \<Rightarrow> int" where
  "toordinal d = ymd2ord (year d) (month d) (day d)"

definition fromordinal :: "int \<Rightarrow> date" where
  "fromordinal n = (case ord2ymd n of (y, m, d) \<Rightarrow> \<lparr>year = y, month = m, day = d\<rparr>)"

text \<open>\<^verbatim>\<open>a < b\<close> and \<^verbatim>\<open>a <= b\<close> on dates, and \<^verbatim>\<open>min(a, b)\<close>, which keeps \<open>a\<close> unless \<open>b\<close> is less.\<close>

definition date_lt :: "date \<Rightarrow> date \<Rightarrow> bool" where
  "date_lt a b \<longleftrightarrow>
     year a < year b \<or> (year a = year b \<and>
       (month a < month b \<or> (month a = month b \<and> day a < day b)))"

definition date_le :: "date \<Rightarrow> date \<Rightarrow> bool" where
  "date_le a b \<longleftrightarrow>
     year a < year b \<or> (year a = year b \<and>
       (month a < month b \<or> (month a = month b \<and> day a \<le> day b)))"

definition date_min :: "date \<Rightarrow> date \<Rightarrow> date" where
  "date_min a b = (if date_lt b a then b else a)"

text \<open>
  \<^verbatim>\<open>timedelta(days=n)\<close>, and \<^verbatim>\<open>d + timedelta(days=n)\<close> (with \<^verbatim>\<open>d - timedelta(days=n)\<close> as
  \<open>date_add d (- n)\<close>).
\<close>

definition timedelta_days :: "int \<Rightarrow> error + int" where
  "timedelta_days n = (if \<bar>n\<bar> > 999999999 then Inl OverflowError else Inr n)"

definition date_add :: "date \<Rightarrow> int \<Rightarrow> error + date" where
  "date_add d n =
     (let o_new = toordinal d + n
      in if 0 < o_new \<and> o_new \<le> MAXORDINAL then Inr (fromordinal o_new) else Inl OverflowError)"

subsection \<open>Date helpers: \<^verbatim>\<open>month_end\<close> and the chunk splitter\<close>

text \<open>
  \<^verbatim>\<open>month_end\<close> (lines 88 to 95): the first day of the next month, minus one day. The
  constructor raises when the next month is January of the year 10000.
\<close>

definition month_end :: "date \<Rightarrow> error + date" where
  "month_end d =
     (case (if month d = 12 then mk_date (year d + 1) 1 1
            else mk_date (year d) (month d + 1) 1) of
        Inl e \<Rightarrow> Inl e
      | Inr first_next \<Rightarrow> date_add first_next (- 1))"

text \<open>
  A chunk is the dictionary \<^verbatim>\<open>{"start_date": ..., "end_date": ...}\<close> of line 112. The script
  stores the two dates in ISO format and \<^verbatim>\<open>main\<close> parses the start back with
  \<^verbatim>\<open>datetime.fromisoformat\<close>; the model keeps the dates and renders them where the script
  uses the strings (\<open>isoformat\<close> below).
\<close>

record chunk =
  start_date :: date
  end_date :: date

text \<open>
  The loop of \<^verbatim>\<open>split_into_month_aligned_chunks\<close> (lines 105 to 113) with its two
  variables \<^verbatim>\<open>cur\<close> and \<^verbatim>\<open>chunks\<close>. A result \<open>Some (Inr chunks)\<close> is the returned list,
  \<open>Some (Inl e)\<close> an exception, \<open>None\<close> a loop that does not end.
\<close>

partial_function (option) split_loop ::
  "date \<Rightarrow> int \<Rightarrow> date \<Rightarrow> chunk list \<Rightarrow> (error + chunk list) option" where
  "split_loop end_d max_days cur chunks =
     (if date_le cur end_d then
        (case month_end cur of
           Inl e \<Rightarrow> Some (Inl e)
         | Inr me \<Rightarrow>
             let candidate_end = date_min me end_d in
             (case timedelta_days (max_days - 1) of
                Inl e \<Rightarrow> Some (Inl e)
              | Inr td \<Rightarrow>
                  (case date_add cur td of
                     Inl e \<Rightarrow> Some (Inl e)
                   | Inr max_by_days \<Rightarrow>
                       let chunk_end = date_min candidate_end max_by_days in
                       (case date_add chunk_end 1 of
                          Inl e \<Rightarrow> Some (Inl e)
                        | Inr cur' \<Rightarrow>
                            split_loop end_d max_days cur'
                              (chunks @ [\<lparr>start_date = cur, end_date = chunk_end\<rparr>])))))
      else Some (Inr chunks))"

definition split_into_month_aligned_chunks ::
  "date \<Rightarrow> date \<Rightarrow> int \<Rightarrow> (error + chunk list) option" where
  "split_into_month_aligned_chunks start_d end_d max_days = split_loop end_d max_days start_d []"

subsection \<open>The API call and its retries\<close>

text \<open>
  What one \<^verbatim>\<open>requests.get\<close> does: it raises, or it returns a response, of which the script
  reads \<^verbatim>\<open>status_code\<close> and \<^verbatim>\<open>json()\<close> (\<open>None\<close> when \<^verbatim>\<open>json()\<close> raises). A request is the
  \<^verbatim>\<open>params\<close> dictionary of lines 120 to 122.
\<close>

record response =
  status_code :: int
  json_body :: "json option"

datatype http_outcome = Raised | Returned response

record request =
  param_start_date :: string
  param_end_date :: string
  param_currencies :: string
  param_access_key :: "string option"

text \<open>
  The outside world. \<open>net ev k\<close> is the outcome of the request issued after \<open>k\<close> earlier
  ones, \<open>s3_raises ev k\<close> says whether the \<^verbatim>\<open>upload_file\<close> call made after \<open>k\<close> earlier ones
  raises. The log: the requests issued, the \<^verbatim>\<open>upload_file\<close> calls made (bucket and key)
  and the objects stored.
\<close>

record env =
  net :: "nat \<Rightarrow> http_outcome"
  s3_raises :: "nat \<Rightarrow> bool"

record world =
  requests :: "request list"
  put_calls :: "(string \<times> string) list"
  objects :: "((string \<times> string) \<times> json) list"

definition world0 :: world where
  "world0 = \<lparr>requests = [], put_calls = [], objects = []\<rparr>"

definition RETRY_COUNT :: nat where
  "RETRY_COUNT = 3"

text \<open>
  \<^verbatim>\<open>Response.raise_for_status()\<close> of the \<^verbatim>\<open>requests\<close> library raises \<^verbatim>\<open>HTTPError\<close> for a
  client error (400 to 499) and for a server error (500 to 599), and returns otherwise.
\<close>

definition raise_for_status :: "int \<Rightarrow> bool" where
  "raise_for_status status \<longleftrightarrow> 400 \<le> status \<and> status < 600"

text \<open>
  The body of the \<^verbatim>\<open>try\<close> of one attempt (lines 128 to 151), from the outcome of the
  request: \<open>Inr body\<close> is \<^verbatim>\<open>return body\<close>, \<open>Inl c\<close> the exception caught at line 152.
\<close>

definition attempt :: "http_outcome \<Rightarrow> cause + json" where
  "attempt out =
     (case out of
        Raised \<Rightarrow> Inl TransportError
      | Returned r \<Rightarrow>
          (case json_body r of
             None \<Rightarrow> Inl NonJSONResponse
           | Some body \<Rightarrow>
               if is_dict body \<and> dict_get body ''success'' = Some (JBool False)
               then Inl (ApiSuccessFalse (dict_get body ''error''))
               else if is_dict body \<and> field_nonempty body ''error''
               then Inl (ApiError (dict_get body ''error''))
               else if status_code r \<ge> 400 \<and> raise_for_status (status_code r)
               then Inl (HTTPError (status_code r))
               else Inr body))"

text \<open>
  The \<^verbatim>\<open>for attempt in range(1, RETRY_COUNT + 1)\<close> loop (lines 124 to 157) over the list of
  attempt numbers still to run, with \<^verbatim>\<open>last_exc\<close>.
\<close>

fun call_attempts ::
  "env \<Rightarrow> request \<Rightarrow> nat list \<Rightarrow> cause option \<Rightarrow> world \<Rightarrow> (error + json) \<times> world" where
  "call_attempts ev rq [] last_exc w = (Inl (FetchFailed last_exc), w)"
| "call_attempts ev rq (n # rest) last_exc w =
     (let w' = w\<lparr>requests := requests w @ [rq]\<rparr> in
      case attempt (net ev (length (requests w))) of
        Inr body \<Rightarrow> (Inr body, w')
      | Inl e \<Rightarrow> call_attempts ev rq rest (Some e) w')"

fun join_comma :: "string list \<Rightarrow> string" where
  "join_comma [] = []"
| "join_comma [x] = x"
| "join_comma (x # y # zs) = x @ '','' @ join_comma (y # zs)"

definition build_params ::
  "string \<Rightarrow> string \<Rightarrow> string list \<Rightarrow> string option \<Rightarrow> request" where
  "build_params sd ed currencies access_key =
     \<lparr>param_start_date = sd, param_end_date = ed,
      param_currencies = join_comma currencies,
      param_access_key = (case access_key of
                            None \<Rightarrow> None
                          | Some k \<Rightarrow> if k = [] then None else Some k)\<rparr>"

definition call_timeframe ::
  "env \<Rightarrow> string \<Rightarrow> string \<Rightarrow> string list \<Rightarrow> string option \<Rightarrow> world
   \<Rightarrow> (error + json) \<times> world" where
  "call_timeframe ev sd ed currencies access_key w =
     call_attempts ev (build_params sd ed currencies access_key) [1..<RETRY_COUNT + 1] None w"

subsection \<open>The upload helper\<close>

text \<open>
  \<^verbatim>\<open>upload_json_to_s3\<close> (lines 162 to 180): \<^verbatim>\<open>startswith\<close> is \<open>prefix\<close>, \<^verbatim>\<open>in\<close> on strings is
  \<open>sublist\<close>, \<^verbatim>\<open>endswith\<close> is \<open>suffix\<close>; \<^verbatim>\<open>rest.partition("/")\<close> splits at the first slash.
  The temporary file is not modelled.
\<close>

definition partition_slash :: "string \<Rightarrow> string \<times> string" where
  "partition_slash s =
     (takeWhile (\<lambda>c. c \<noteq> CHR ''/'') s, drop 1 (dropWhile (\<lambda>c. c \<noteq> CHR ''/'') s))"

definition upload_json_to_s3 ::
  "env \<Rightarrow> json \<Rightarrow> string \<Rightarrow> world \<Rightarrow> (error + unit) \<times> world" where
  "upload_json_to_s3 ev obj s3_uri w =
     (if \<not> prefix ''s3://'' s3_uri then (Inl ValueError_s3_path, w)
      else if sublist ''/currency-script/'' s3_uri \<or> suffix ''currency.py'' s3_uri
      then (Inl WriteRejected, w)
      else
        let rest = drop 5 s3_uri;
            bk = partition_slash rest;
            w' = w\<lparr>put_calls := put_calls w @ [bk]\<rparr>
        in if s3_raises ev (length (put_calls w)) then (Inl WriteFailed, w')
           else (Inr (), w'\<lparr>objects := objects w' @ [(bk, obj)]\<rparr>))"

subsection \<open>Main\<close>

text \<open>
  The two tests of lines 234 to 241 that make \<^verbatim>\<open>main\<close> skip a chunk, as the
  specification's ResponseValidator.
\<close>

datatype verdict = Usable | Skippable

definition validate :: "json \<Rightarrow> verdict" where
  "validate data =
     (if \<not> is_dict data then Skippable
      else if \<not> field_nonempty data ''rates'' \<and> \<not> field_nonempty data ''quotes''
      then Skippable
      else Usable)"

text \<open>
  \<^verbatim>\<open>date.isoformat()\<close> and the formats \<^verbatim>\<open>:04d\<close> and \<^verbatim>\<open>:02d\<close> of lines 245 and 246, for
  the fields of a date (a year below 10000, a month and a day below 100).
\<close>

definition digit_char :: "int \<Rightarrow> char" where
  "digit_char n = ''0123456789'' ! nat n"

definition fmt04 :: "int \<Rightarrow> string" where
  "fmt04 n = [digit_char (n div 1000 mod 10), digit_char (n div 100 mod 10),
              digit_char (n div 10 mod 10), digit_char (n mod 10)]"

definition fmt02 :: "int \<Rightarrow> string" where
  "fmt02 n = [digit_char (n div 10 mod 10), digit_char (n mod 10)]"

definition isoformat :: "date \<Rightarrow> string" where
  "isoformat d = fmt04 (year d) @ ''-'' @ fmt02 (month d) @ ''-'' @ fmt02 (day d)"

definition rstrip_slash :: "string \<Rightarrow> string" where
  "rstrip_slash s = rev (dropWhile (\<lambda>c. c = CHR ''/'') (rev s))"

text \<open>The destination of lines 244 to 249.\<close>

definition s3_target :: "string \<Rightarrow> chunk \<Rightarrow> string" where
  "s3_target s3_output c =
     rstrip_slash s3_output @ ''/year='' @ fmt04 (year (start_date c))
       @ ''/month='' @ fmt02 (month (start_date c))
       @ ''/'' @ ''timeframe_'' @ isoformat (start_date c) @ ''_to_''
       @ isoformat (end_date c) @ ''.json''"

text \<open>
  The arguments of a run as \<^verbatim>\<open>main\<close> has them after lines 201 to 206 and the parsing of
  line 214: the output location (\<open>None\<close> when the option is missing), the two dates
  (\<open>None\<close> when \<^verbatim>\<open>datetime.fromisoformat\<close> raises), the currency codes, the access key and
  the integer \<^verbatim>\<open>max_days\<close>.
\<close>

record run_args =
  arg_s3_output :: "string option"
  arg_start :: "date option"
  arg_end :: "date option"
  arg_currencies :: "string list"
  arg_access_key :: "string option"
  arg_max_days :: int

text \<open>
  The \<^verbatim>\<open>for chunk in chunks\<close> loop (lines 229 to 252) with the flag \<^verbatim>\<open>any_uploaded\<close>;
  \<open>out\<close> is \<^verbatim>\<open>s3_output\<close>.
\<close>

fun process_chunks ::
  "env \<Rightarrow> run_args \<Rightarrow> string \<Rightarrow> chunk list \<Rightarrow> bool \<Rightarrow> world \<Rightarrow> (error + bool) \<times> world" where
  "process_chunks ev a out [] any_uploaded w = (Inr any_uploaded, w)"
| "process_chunks ev a out (c # cs) any_uploaded w =
     (case call_timeframe ev (isoformat (start_date c)) (isoformat (end_date c))
             (arg_currencies a) (arg_access_key a) w of
        (Inl e, w1) \<Rightarrow> (Inl e, w1)
      | (Inr data, w1) \<Rightarrow>
          (case validate data of
             Skippable \<Rightarrow> process_chunks ev a out cs any_uploaded w1
           | Usable \<Rightarrow>
               (case upload_json_to_s3 ev data (s3_target out c) w1 of
                  (Inl e, w2) \<Rightarrow> (Inl e, w2)
                | (Inr u, w2) \<Rightarrow> process_chunks ev a out cs True w2)))"

text \<open>
  \<^verbatim>\<open>main\<close> up to the chunk list (lines 208 to 226): the output location must be given,
  the dates must parse, they are swapped when out of order, and the range is split.
\<close>

definition main_prelude :: "run_args \<Rightarrow> (error + string \<times> chunk list) option" where
  "main_prelude a =
     (case arg_s3_output a of
        None \<Rightarrow> Some (Inl (SystemExit 2))
      | Some out \<Rightarrow>
          if out = [] then Some (Inl (SystemExit 2))
          else
            (case (arg_start a, arg_end a) of
               (Some sdate, Some edate) \<Rightarrow>
                 (case (if date_lt edate sdate
                        then split_into_month_aligned_chunks edate sdate (arg_max_days a)
                        else split_into_month_aligned_chunks sdate edate (arg_max_days a)) of
                    None \<Rightarrow> None
                  | Some (Inl e) \<Rightarrow> Some (Inl e)
                  | Some (Inr chunks) \<Rightarrow> Some (Inr (out, chunks)))
             | _ \<Rightarrow> Some (Inl ValueError_isoformat)))"

text \<open>The rest of \<^verbatim>\<open>main\<close> (lines 228 to 258).\<close>

definition main_loop ::
  "env \<Rightarrow> run_args \<Rightarrow> string \<Rightarrow> chunk list \<Rightarrow> (error + unit) \<times> world" where
  "main_loop ev a out chunks =
     (case process_chunks ev a out chunks False world0 of
        (Inl e, w) \<Rightarrow> (Inl e, w)
      | (Inr any_uploaded, w) \<Rightarrow>
          if \<not> any_uploaded then (Inl NoDataIngested, w) else (Inr (), w))"

definition main :: "env \<Rightarrow> run_args \<Rightarrow> ((error + unit) \<times> world) option" where
  "main ev a =
     (case main_prelude a of
        None \<Rightarrow> None
      | Some (Inl e) \<Rightarrow> Some (Inl e, world0)
      | Some (Inr (out, chunks)) \<Rightarrow> Some (main_loop ev a out chunks))"

text \<open>
  The exit status of the process (lines 261 to 267): 0 when \<^verbatim>\<open>main\<close> returns, 1 when it
  raises an \<^verbatim>\<open>Exception\<close>, the code of a \<^verbatim>\<open>SystemExit\<close> (which \<^verbatim>\<open>except Exception\<close> does
  not catch), and none when \<^verbatim>\<open>main\<close> does not return.
\<close>

definition exit_status :: "env \<Rightarrow> run_args \<Rightarrow> int option" where
  "exit_status ev a =
     (case main ev a of
        None \<Rightarrow> None
      | Some (Inr u, w) \<Rightarrow> Some 0
      | Some (Inl (SystemExit code), w) \<Rightarrow> Some code
      | Some (Inl e, w) \<Rightarrow> Some 1)"

subsection \<open>The vocabulary of the specification\<close>

text \<open>
  A chunk lies in one calendar month; its span in days is \<^verbatim>\<open>(end - start).days + 1\<close>.
\<close>

definition same_month :: "chunk \<Rightarrow> bool" where
  "same_month c \<longleftrightarrow>
     year (start_date c) = year (end_date c) \<and> month (start_date c) = month (end_date c)"

definition span_days :: "chunk \<Rightarrow> int" where
  "span_days c = toordinal (end_date c) - toordinal (start_date c) + 1"

text \<open>
  A chunk sequence is contiguous when each chunk starts one day after the chunk before it
  ends, ordered when the starts increase, non-overlapping when every chunk is an interval
  that ends before every later chunk starts. A date is covered when it lies in the closed
  interval of some chunk.
\<close>

definition contiguous :: "chunk list \<Rightarrow> bool" where
  "contiguous cs \<longleftrightarrow> successively (\<lambda>a b. date_add (end_date a) 1 = Inr (start_date b)) cs"

definition ordered :: "chunk list \<Rightarrow> bool" where
  "ordered cs \<longleftrightarrow> sorted_wrt (\<lambda>a b. date_lt (start_date a) (start_date b)) cs"

definition non_overlapping :: "chunk list \<Rightarrow> bool" where
  "non_overlapping cs \<longleftrightarrow>
     list_all (\<lambda>c. date_le (start_date c) (end_date c)) cs
     \<and> sorted_wrt (\<lambda>a b. date_lt (end_date a) (start_date b)) cs"

definition covered :: "chunk list \<Rightarrow> date \<Rightarrow> bool" where
  "covered cs d \<longleftrightarrow> list_ex (\<lambda>c. date_le (start_date c) d \<and> date_le d (end_date c)) cs"

text \<open>The dates of the arguments are date objects.\<close>

definition wf_args :: "run_args \<Rightarrow> bool" where
  "wf_args a \<longleftrightarrow>
     (case arg_start a of None \<Rightarrow> True | Some d \<Rightarrow> valid_date d)
     \<and> (case arg_end a of None \<Rightarrow> True | Some d \<Rightarrow> valid_date d)"

subsection \<open>Auxiliary notions of the proofs\<close>

text \<open>The last day of the month of a date, which \<^verbatim>\<open>month_end\<close> returns when it returns.\<close>

definition last_of_month :: "date \<Rightarrow> date" where
  "last_of_month d =
     \<lparr>year = year d, month = month d, day = days_in_month (year d) (month d)\<rparr>"

text \<open>
  The body of the loop over an arbitrary continuation \<open>f\<close>: \<open>split_loop\<close> is its fixed
  point (lemma \<open>split_loop_unfold\<close>).
\<close>

definition split_body ::
  "(date \<Rightarrow> int \<Rightarrow> date \<Rightarrow> chunk list \<Rightarrow> (error + chunk list) option) \<Rightarrow>
   date \<Rightarrow> int \<Rightarrow> date \<Rightarrow> chunk list \<Rightarrow> (error + chunk list) option" where
  "split_body f end_d max_days cur chunks =
     (if date_le cur end_d then
        (case month_end cur of
           Inl e \<Rightarrow> Some (Inl e)
         | Inr me \<Rightarrow>
             let candidate_end = date_min me end_d in
             (case timedelta_days (max_days - 1) of
                Inl e \<Rightarrow> Some (Inl e)
              | Inr td \<Rightarrow>
                  (case date_add cur td of
                     Inl e \<Rightarrow> Some (Inl e)
                   | Inr max_by_days \<Rightarrow>
                       let chunk_end = date_min candidate_end max_by_days in
                       (case date_add chunk_end 1 of
                          Inl e \<Rightarrow> Some (Inl e)
                        | Inr cur' \<Rightarrow>
                            f end_d max_days cur'
                              (chunks @ [\<lparr>start_date = cur, end_date = chunk_end\<rparr>])))))
      else Some (Inr chunks))"

text \<open>
  What is known of a chunk that the loop has appended with \<open>max_days\<close> at least 1, and of
  the chunks appended from the ordinal \<open>s\<close> on when the loop returns.
\<close>

definition chunk_ok :: "int \<Rightarrow> chunk \<Rightarrow> bool" where
  "chunk_ok md c \<longleftrightarrow>
     valid_date (start_date c) \<and> valid_date (end_date c)
     \<and> toordinal (start_date c) \<le> toordinal (end_date c)
     \<and> year (end_date c) = year (start_date c) \<and> month (end_date c) = month (start_date c)
     \<and> \<not> (year (start_date c) = 9999 \<and> month (start_date c) = 12)
     \<and> toordinal (end_date c) \<le> toordinal (start_date c) + (md - 1)
     \<and> toordinal (start_date c) + (md - 1) \<le> MAXORDINAL"

fun chain :: "int \<Rightarrow> int \<Rightarrow> chunk list \<Rightarrow> bool" where
  "chain s e [] = (e < s)"
| "chain s e (c # cs) =
     (s \<le> e \<and> toordinal (start_date c) = s \<and> toordinal (end_date c) \<le> e
      \<and> chain (toordinal (end_date c) + 1) e cs)"

subsection \<open>Example runs\<close>

text \<open>
  Concrete values for the runs that the theorems below are applied to: a network that
  answers every request with the same status and body, three bodies (one with empty
  rates, one with rates, one with \<^verbatim>\<open>success=false\<close>), the two chunks of 2025-05-15 to
  2025-06-10, and the arguments of a run over that range.
\<close>

definition constant_env :: "int \<Rightarrow> json \<Rightarrow> env" where
  "constant_env status body =
     \<lparr>net = (\<lambda>k. Returned \<lparr>status_code = status, json_body = Some body\<rparr>),
      s3_raises = (\<lambda>k. False)\<rparr>"

definition skip_body :: json where
  "skip_body = JObj [(''success'', JBool True), (''rates'', JObj [])]"

definition usable_body :: json where
  "usable_body = JObj [(''success'', JBool True),
                       (''rates'', JObj [(''2025-05-15'', JObj [(''USDEUR'', JNum 1)])])]"

definition failure_body :: json where
  "failure_body = JObj [(''success'', JBool False), (''error'', JObj [(''code'', JNum 101)])]"

definition chunk_may :: chunk where
  "chunk_may = \<lparr>start_date = \<lparr>year = 2025, month = 5, day = 15\<rparr>,
                 end_date = \<lparr>year = 2025, month = 5, day = 31\<rparr>\<rparr>"

definition chunk_june :: chunk where
  "chunk_june = \<lparr>start_date = \<lparr>year = 2025, month = 6, day = 1\<rparr>,
                  end_date = \<lparr>year = 2025, month = 6, day = 10\<rparr>\<rparr>"

definition example_args :: "string \<Rightarrow> int \<Rightarrow> run_args" where
  "example_args out md =
     \<lparr>arg_s3_output = Some out,
      arg_start = Some \<lparr>year = 2025, month = 5, day = 15\<rparr>,
      arg_end = Some \<lparr>year = 2025, month = 6, day = 10\<rparr>,
      arg_currencies = [''USD'', ''EUR''],
      arg_access_key = None,
      arg_max_days = md\<rparr>"

section \<open>The calendar\<close>

text \<open>
  The ordinal of a date grows strictly with the date, \<open>fromordinal\<close> and \<open>toordinal\<close> are
  inverse to each other on the dates and the ordinals from 1 to 3652059, and
  \<^verbatim>\<open>month_end\<close> returns the last day of the month except in December 9999.
\<close>

lemma div_succ:
  fixes x k :: int
  assumes "0 < k"
  shows "(x + 1) div k = x div k + (if (x + 1) mod k = 0 then 1 else 0)"
proof -
  define q where "q = x div k"
  define r where "r = x mod k"
  have x: "x = k * q + r" by (simp add: q_def r_def)
  have r: "0 \<le> r" "r < k" using assms by (simp_all add: r_def)
  show ?thesis
  proof (cases "r + 1 = k")
    case True
    then have e: "x + 1 = k * (q + 1) + 0" using x by (simp add: algebra_simps)
    have "(x + 1) div k = q + 1" using int_div_pos_eq [OF e] assms by simp
    moreover have "(x + 1) mod k = 0" using int_mod_pos_eq [OF e] assms by simp
    ultimately show ?thesis by (simp add: q_def)
  next
    case False
    then have lt: "r + 1 < k" using r by simp
    have e: "x + 1 = k * q + (r + 1)" using x by simp
    have "(x + 1) div k = q" using int_div_pos_eq [OF e] lt r by simp
    moreover have "(x + 1) mod k = r + 1" using int_mod_pos_eq [OF e] lt r by simp
    ultimately show ?thesis using r by (simp add: q_def)
  qed
qed

lemma mod_100_4: "(y::int) mod 100 = 0 \<Longrightarrow> y mod 4 = 0"
proof -
  assume "y mod 100 = 0"
  then have "100 dvd y" by (rule iffD1 [OF mod_eq_0_iff_dvd])
  moreover have "(4::int) dvd 100" by simp
  ultimately have "4 dvd y" by (rule dvd_trans [rotated])
  then show ?thesis by (rule iffD2 [OF mod_eq_0_iff_dvd])
qed

lemma mod_400_100: "(y::int) mod 400 = 0 \<Longrightarrow> y mod 100 = 0"
proof -
  assume "y mod 400 = 0"
  then have "400 dvd y" by (rule iffD1 [OF mod_eq_0_iff_dvd])
  moreover have "(100::int) dvd 400" by simp
  ultimately have "100 dvd y" by (rule dvd_trans [rotated])
  then show ?thesis by (rule iffD2 [OF mod_eq_0_iff_dvd])
qed

lemma dby_step_arith:
  fixes y a b c :: int
  assumes "r \<Longrightarrow> q" and "q \<Longrightarrow> p"
  shows "y * 365 + (a + (if p then 1 else 0)) - (b + (if q then 1 else 0)) + (c + (if r then 1 else 0))
       = (y - 1) * 365 + a - b + c + (if p \<and> (\<not> q \<or> r) then 366 else 365)"
  using assms by (cases p; cases q; cases r) simp_all

lemma div_pred:
  fixes x k :: int
  assumes "0 < k"
  shows "x div k = (x - 1) div k + (if x mod k = 0 then 1 else 0)"
  using div_succ [OF assms, of "x - 1"] unfolding diff_add_cancel .

lemma dby_step:
  "days_before_year (y + 1) = days_before_year y + (if is_leap y then 366 else 365)"
proof -
  have d4: "y div 4 = (y - 1) div 4 + (if y mod 4 = 0 then 1 else 0)"
    by (rule div_pred) simp
  have d100: "y div 100 = (y - 1) div 100 + (if y mod 100 = 0 then 1 else 0)"
    by (rule div_pred) simp
  have d400: "y div 400 = (y - 1) div 400 + (if y mod 400 = 0 then 1 else 0)"
    by (rule div_pred) simp
  have e: "days_before_year (y + 1) = y * 365 + y div 4 - y div 100 + y div 400"
    unfolding days_before_year_def Let_def add_diff_cancel_right' ..
  have f: "days_before_year y = (y - 1) * 365 + (y - 1) div 4 - (y - 1) div 100 + (y - 1) div 400"
    unfolding days_before_year_def Let_def ..
  show ?thesis
    unfolding e f d4 d100 d400 is_leap_def
    by (rule dby_step_arith) (rule mod_400_100, assumption, rule mod_100_4, assumption)
qed

lemma dby_mono_strict:
  assumes "y1 < y2"
  shows "days_before_year (y1 + 1) \<le> days_before_year y2"
proof -
  from assms have "y1 + 1 \<le> y2" by simp
  then show ?thesis
  proof (induction y2 rule: int_ge_induct)
    case base
    show ?case by simp
  next
    case (step i)
    have "days_before_year i \<le> days_before_year (i + 1)"
      unfolding dby_step by simp
    with step.IH show ?case by simp
  qed
qed

lemma month_disj:
  fixes m :: int
  assumes "1 \<le> m" "m \<le> 12"
  shows "m = 1 \<or> m = 2 \<or> m = 3 \<or> m = 4 \<or> m = 5 \<or> m = 6
    \<or> m = 7 \<or> m = 8 \<or> m = 9 \<or> m = 10 \<or> m = 11 \<or> m = 12"
  using assms by arith

lemma month_cases:
  fixes m :: int
  assumes "1 \<le> m" "m \<le> 12"
  obtains "m = 1" | "m = 2" | "m = 3" | "m = 4" | "m = 5" | "m = 6"
    | "m = 7" | "m = 8" | "m = 9" | "m = 10" | "m = 11" | "m = 12"
  using month_disj [OF assms] by blast

lemmas month_tables =
  days_before_month_def days_in_month_def DAYS_IN_MONTH_def DAYS_BEFORE_MONTH_def

lemma dbm_succ:
  assumes "1 \<le> m" "m < 12"
  shows "days_before_month y (m + 1) = days_before_month y m + days_in_month y m"
proof -
  from assms have "1 \<le> m" "m \<le> 12" by simp_all
  then show ?thesis using assms(2)
    by (cases m rule: month_cases) (simp_all add: month_tables)
qed

lemma dbm_first: "days_before_month y 1 = 0"
  by (simp add: month_tables)

lemma dbm_last:
  "days_before_month y 12 + days_in_month y 12 = (if is_leap y then 366 else 365)"
  by (simp add: month_tables)

lemma dim_bounds:
  assumes "1 \<le> m" "m \<le> 12"
  shows "28 \<le> days_in_month y m \<and> days_in_month y m \<le> 31"
  using assms by (cases m rule: month_cases) (simp_all add: month_tables)

lemma mod_zero_shift:
  fixes k q r :: int
  assumes "1 \<le> r" "r \<le> k"
  shows "(k * q + r) mod k = 0 \<longleftrightarrow> r = k"
proof (cases "r = k")
  case True
  have "(k * q + k) mod k = 0" by simp
  with True show ?thesis by simp
next
  case False
  with assms have "r < k" by simp
  have "(k * q + r) mod k = r"
    by (rule int_mod_pos_eq [where q = q]) (use assms \<open>r < k\<close> in simp_all)
  with False assms show ?thesis by simp
qed

lemma dby_decomp:
  fixes a b c d :: int
  assumes "0 \<le> b" "b \<le> 3" "0 \<le> c" "c \<le> 24" "0 \<le> d" "d \<le> 3"
  shows "days_before_year (400 * a + 100 * b + 4 * c + d + 1)
       = 146097 * a + 36524 * b + 1461 * c + 365 * d"
proof -
  let ?x = "400 * a + 100 * b + 4 * c + d"
  have q4: "?x div 4 = 100 * a + 25 * b + c"
    by (rule int_div_pos_eq [where r = d]) (use assms in simp_all)
  have q100: "?x div 100 = 4 * a + b"
    by (rule int_div_pos_eq [where r = "4 * c + d"]) (use assms in simp_all)
  have q400: "?x div 400 = a"
    by (rule int_div_pos_eq [where r = "100 * b + 4 * c + d"]) (use assms in simp_all)
  have "days_before_year (?x + 1) = ?x * 365 + ?x div 4 - ?x div 100 + ?x div 400"
    unfolding days_before_year_def Let_def add_diff_cancel_right' ..
  also have "\<dots> = 146097 * a + 36524 * b + 1461 * c + 365 * d"
    unfolding q4 q100 q400 by simp
  finally show ?thesis .
qed

lemma leap_decomp:
  fixes a b c d :: int
  assumes "0 \<le> b" "b \<le> 3" "0 \<le> c" "c \<le> 24" "0 \<le> d" "d \<le> 3"
  shows "is_leap (400 * a + 100 * b + 4 * c + d + 1) \<longleftrightarrow> d = 3 \<and> (c \<noteq> 24 \<or> b = 3)"
proof -
  let ?y = "400 * a + 100 * b + 4 * c + d + 1"
  have e4: "?y = 4 * (100 * a + 25 * b + c) + (d + 1)" by simp
  have e100: "?y = 100 * (4 * a + b) + (4 * c + d + 1)" by simp
  have e400: "?y = 400 * a + (100 * b + 4 * c + d + 1)" by simp
  have m4: "?y mod 4 = 0 \<longleftrightarrow> d + 1 = 4"
    unfolding e4 by (rule mod_zero_shift) (use assms in simp_all)
  have m100: "?y mod 100 = 0 \<longleftrightarrow> 4 * c + d + 1 = 100"
    unfolding e100 by (rule mod_zero_shift) (use assms in simp_all)
  have m400: "?y mod 400 = 0 \<longleftrightarrow> 100 * b + 4 * c + d + 1 = 400"
    unfolding e400 by (rule mod_zero_shift) (use assms in simp_all)
  show ?thesis
    unfolding is_leap_def m4 m100 m400 using assms by arith
qed

lemma div_bounds:
  fixes x k :: int
  assumes "0 < k"
  shows "k * (x div k) \<le> x" and "x < k * (x div k) + k"
proof -
  have "x = k * (x div k) + x mod k" by simp
  moreover have "0 \<le> x mod k" "x mod k < k" using assms by simp_all
  ultimately show "k * (x div k) \<le> x" and "x < k * (x div k) + k" by linarith+
qed

lemma month_day_correct:
  assumes "0 \<le> n" "n < 365"
  shows "case month_day (is_leap y) n of (m, d) \<Rightarrow>
           1 \<le> m \<and> m \<le> 12 \<and> 1 \<le> d \<and> d \<le> days_in_month y m
           \<and> days_before_month y m + d = n + 1"
proof -
  define k where "k = (n + 50) div 32"
  have kb: "32 * k \<le> n + 50" "n + 50 < 32 * k + 32"
    unfolding k_def by (rule div_bounds, simp)+
  with assms have "1 \<le> k" "k \<le> 12" by linarith+
  then show ?thesis
    using kb assms unfolding month_day_def k_def [symmetric]
    by (cases k rule: month_cases) (simp_all add: Let_def month_tables)
qed

lemma ord2ymd_correct:
  assumes "1 \<le> n"
  shows "case ord2ymd n of (y, m, d) \<Rightarrow>
           1 \<le> m \<and> m \<le> 12 \<and> 1 \<le> d \<and> d \<le> days_in_month y m \<and> ymd2ord y m d = n"
proof -
  define n0 where "n0 = n - 1"
  define a where "a = n0 div 146097"
  define r1 where "r1 = n0 mod 146097"
  define b where "b = r1 div 36524"
  define r2 where "r2 = r1 mod 36524"
  define c where "c = r2 div 1461"
  define r3 where "r3 = r2 mod 1461"
  define d where "d = r3 div 365"
  define r4 where "r4 = r3 mod 365"
  have n0: "n0 = 146097 * a + r1" "0 \<le> r1" "r1 < 146097"
    unfolding a_def r1_def by simp_all
  have r1: "r1 = 36524 * b + r2" "0 \<le> r2" "r2 < 36524"
    unfolding b_def r2_def by simp_all
  have r2: "r2 = 1461 * c + r3" "0 \<le> r3" "r3 < 1461"
    unfolding c_def r3_def by simp_all
  have r3: "r3 = 365 * d + r4" "0 \<le> r4" "r4 < 365"
    unfolding d_def r4_def by simp_all
  have bb: "0 \<le> b" "b \<le> 4" using n0 r1 by linarith+
  have cb: "0 \<le> c" "c \<le> 24" using r1 r2 by linarith+
  have db: "0 \<le> d" "d \<le> 4" using r2 r3 by linarith+
  have unf: "ord2ymd n =
      (if d = 4 \<or> b = 4 then (a * 400 + 1 + (b * 100 + c * 4 + d) - 1, 12, 31)
       else (a * 400 + 1 + (b * 100 + c * 4 + d), month_day (d = 3 \<and> (c \<noteq> 24 \<or> b = 3)) r4))"
    unfolding ord2ymd_def Let_def a_def r1_def b_def r2_def c_def r3_def d_def r4_def n0_def ..
  show ?thesis
  proof (cases "d = 4 \<or> b = 4")
    case True
    define b' c' where "b' = (if b = 4 then 3 else b)" and "c' = (if b = 4 then 24 else c)"
    have sp: "r4 = 0 \<and> (b = 4 \<longrightarrow> c = 0 \<and> d = 0) \<and> (b \<noteq> 4 \<longrightarrow> d = 4 \<and> c \<le> 23)"
      using True n0 r1 r2 r3 bb cb db by linarith
    have y: "a * 400 + 1 + (b * 100 + c * 4 + d) - 1 = 400 * a + 100 * b' + 4 * c' + 3 + 1"
      using sp by (auto simp add: b'_def c'_def)
    have rng: "0 \<le> b'" "b' \<le> 3" "0 \<le> c'" "c' \<le> 24"
      using bb cb sp by (auto simp add: b'_def c'_def)
    have lp: "is_leap (400 * a + 100 * b' + 4 * c' + 3 + 1)"
      using leap_decomp [of b' c' 3 a] rng sp by (auto simp add: b'_def c'_def)
    have dby: "days_before_year (400 * a + 100 * b' + 4 * c' + 3 + 1)
        = 146097 * a + 36524 * b' + 1461 * c' + 365 * 3"
      by (rule dby_decomp) (use rng in simp_all)
    have "n = 146097 * a + 36524 * b' + 1461 * c' + 365 * 3 + 366"
      using sp n0 r1 r2 r3 by (auto simp add: b'_def c'_def n0_def)
    then show ?thesis
      unfolding unf y using True lp dby
      by (simp add: ymd2ord_def month_tables)
  next
    case False
    with bb db have rng: "b \<le> 3" "d \<le> 3" by simp_all
    let ?y = "400 * a + 100 * b + 4 * c + d + 1"
    have y: "a * 400 + 1 + (b * 100 + c * 4 + d) = ?y" by simp
    have lp: "(d = 3 \<and> (c \<noteq> 24 \<or> b = 3)) = is_leap ?y"
      by (rule leap_decomp [symmetric]) (use bb cb db rng in simp_all)
    have dby: "days_before_year ?y = 146097 * a + 36524 * b + 1461 * c + 365 * d"
      by (rule dby_decomp) (use bb cb db rng in simp_all)
    have n: "n = days_before_year ?y + r4 + 1"
      unfolding dby using n0 r1 r2 r3 by (simp add: n0_def)
    from month_day_correct [OF r3(2,3), of ?y] n show ?thesis
      unfolding unf y lp using False
      by (auto simp add: ymd2ord_def)
  qed
qed

lemma dbm_mono:
  assumes "1 \<le> m1" "m1 \<le> m2" "m2 \<le> 12"
  shows "days_before_month y m1 \<le> days_before_month y m2"
proof -
  have "m2 \<le> 12 \<longrightarrow> days_before_month y m1 \<le> days_before_month y m2"
    using assms(2)
  proof (induction m2 rule: int_ge_induct)
    case base
    show ?case by simp
  next
    case (step i)
    show ?case
    proof
      assume "i + 1 \<le> 12"
      with step.hyps assms(1) have i: "1 \<le> i" "i < 12" "i \<le> 12" by simp_all
      have "days_before_month y (i + 1) = days_before_month y i + days_in_month y i"
        using i(1,2) by (rule dbm_succ)
      moreover have "28 \<le> days_in_month y i" using dim_bounds [OF i(1,3)] by simp
      ultimately show "days_before_month y m1 \<le> days_before_month y (i + 1)"
        using step.IH i(3) by simp
    qed
  qed
  with assms(3) show ?thesis by simp
qed

lemma day_of_year_bounds:
  assumes "1 \<le> m" "m \<le> 12" "1 \<le> d" "d \<le> days_in_month y m"
  shows "1 \<le> days_before_month y m + d"
    and "days_before_month y m + d \<le> (if is_leap y then 366 else 365)"
proof -
  have "days_before_month y 1 \<le> days_before_month y m"
    using assms(1,2) by (intro dbm_mono) simp_all
  with assms(3) show "1 \<le> days_before_month y m + d" by (simp add: dbm_first)
  have "days_before_month y m \<le> days_before_month y 12 \<and> (m < 12 \<longrightarrow>
      days_before_month y m + days_in_month y m \<le> days_before_month y 12)"
  proof (intro conjI impI)
    show "days_before_month y m \<le> days_before_month y 12"
      using assms(1,2) by (intro dbm_mono) simp_all
    assume "m < 12"
    then have "days_before_month y (m + 1) \<le> days_before_month y 12"
      using assms(1) by (intro dbm_mono) simp_all
    then show "days_before_month y m + days_in_month y m \<le> days_before_month y 12"
      using dbm_succ [OF assms(1) \<open>m < 12\<close>, of y] by simp
  qed
  moreover have "28 \<le> days_in_month y 12" by (simp add: month_tables)
  ultimately have "days_before_month y m + days_in_month y m
      \<le> days_before_month y 12 + days_in_month y 12"
    using assms(2) by (cases "m = 12") auto
  with assms(4) show "days_before_month y m + d \<le> (if is_leap y then 366 else 365)"
    unfolding dbm_last by simp
qed

lemma ymd2ord_less_year:
  assumes "y1 < y2"
    and "1 \<le> m1" "m1 \<le> 12" "1 \<le> d1" "d1 \<le> days_in_month y1 m1"
    and "1 \<le> m2" "m2 \<le> 12" "1 \<le> d2" "d2 \<le> days_in_month y2 m2"
  shows "ymd2ord y1 m1 d1 < ymd2ord y2 m2 d2"
proof -
  have "ymd2ord y1 m1 d1 \<le> days_before_year (y1 + 1)"
    unfolding ymd2ord_def dby_step using day_of_year_bounds(2) [OF assms(2-5)] by simp
  also have "\<dots> \<le> days_before_year y2" using assms(1) by (rule dby_mono_strict)
  also have "\<dots> < ymd2ord y2 m2 d2"
    unfolding ymd2ord_def using day_of_year_bounds(1) [OF assms(6-9)] by simp
  finally show ?thesis .
qed

lemma ymd2ord_less_month:
  assumes "m1 < m2"
    and "1 \<le> m1" "d1 \<le> days_in_month y m1"
    and "m2 \<le> 12" "1 \<le> d2"
  shows "ymd2ord y m1 d1 < ymd2ord y m2 d2"
proof -
  from assms have lt: "m1 < 12" by simp
  have "days_before_month y m1 + d1 \<le> days_before_month y (m1 + 1)"
    using dbm_succ [OF assms(2) lt, of y] assms(3) by simp
  also have "\<dots> \<le> days_before_month y m2"
    using assms by (intro dbm_mono) simp_all
  finally show ?thesis using assms(5) by (simp add: ymd2ord_def)
qed

lemma dby_mono:
  assumes "y1 \<le> y2"
  shows "days_before_year y1 \<le> days_before_year y2"
proof (cases "y1 = y2")
  case True
  then show ?thesis by simp
next
  case False
  with assms have "y1 < y2" by simp
  then have "days_before_year (y1 + 1) \<le> days_before_year y2" by (rule dby_mono_strict)
  moreover have "days_before_year y1 \<le> days_before_year (y1 + 1)"
    unfolding dby_step by simp
  ultimately show ?thesis by simp
qed

lemma dby_first: "days_before_year 1 = 0"
  by (simp add: days_before_year_def)

lemma dby_last: "days_before_year 10000 = 3652059"
  by (simp add: days_before_year_def)

lemma date_eqI:
  fixes a b :: date
  assumes "year a = year b" "month a = month b" "day a = day b"
  shows "a = b"
  using assms by (cases a, cases b) simp

lemma toordinal_less:
  assumes "valid_date a" "valid_date b" "date_lt a b"
  shows "toordinal a < toordinal b"
proof -
  from assms(1,2) have va: "1 \<le> month a" "month a \<le> 12" "1 \<le> day a"
      "day a \<le> days_in_month (year a) (month a)"
    and vb: "1 \<le> month b" "month b \<le> 12" "1 \<le> day b"
      "day b \<le> days_in_month (year b) (month b)"
    by (simp_all add: valid_date_def valid_ymd_def)
  consider "year a < year b" | "year a = year b" "month a < month b"
    | "year a = year b" "month a = month b" "day a < day b"
    using assms(3) by (auto simp add: date_lt_def)
  then show ?thesis
  proof cases
    case 1
    then show ?thesis unfolding toordinal_def using va vb by (rule ymd2ord_less_year)
  next
    case 2
    show ?thesis unfolding toordinal_def 2(1)
      using 2(2) va(1) va(4) [unfolded 2(1)] vb(2) vb(3) by (rule ymd2ord_less_month)
  next
    case 3
    then show ?thesis by (simp add: toordinal_def ymd2ord_def)
  qed
qed

lemma date_trichotomy: "date_lt a b \<or> a = b \<or> date_lt b a"
proof (cases "year a = year b \<and> month a = month b \<and> day a = day b")
  case True
  then have "a = b" by (intro date_eqI) simp_all
  then show ?thesis by simp
next
  case False
  then show ?thesis by (auto simp add: date_lt_def)
qed

lemma date_le_iff: "date_le a b \<longleftrightarrow> date_lt a b \<or> a = b"
proof
  assume "date_le a b"
  then have "date_lt a b \<or> (year a = year b \<and> month a = month b \<and> day a = day b)"
    by (auto simp add: date_le_def date_lt_def)
  then show "date_lt a b \<or> a = b" by (auto intro: date_eqI)
next
  assume "date_lt a b \<or> a = b"
  then show "date_le a b" by (auto simp add: date_le_def date_lt_def)
qed

lemma toordinal_less_iff:
  assumes "valid_date a" "valid_date b"
  shows "date_lt a b \<longleftrightarrow> toordinal a < toordinal b"
proof
  assume "date_lt a b"
  with assms show "toordinal a < toordinal b" by (rule toordinal_less)
next
  assume lt: "toordinal a < toordinal b"
  show "date_lt a b"
  proof (rule ccontr)
    assume "\<not> date_lt a b"
    with date_trichotomy [of a b] have "a = b \<or> date_lt b a" by simp
    then have "toordinal b \<le> toordinal a"
      using toordinal_less [OF assms(2,1)] by auto
    with lt show False by simp
  qed
qed

lemma toordinal_inj:
  assumes "valid_date a" "valid_date b" "toordinal a = toordinal b"
  shows "a = b"
  using date_trichotomy [of a b] toordinal_less [OF assms(1,2)] toordinal_less [OF assms(2,1)]
    assms(3) by auto

lemma toordinal_le_iff:
  assumes "valid_date a" "valid_date b"
  shows "date_le a b \<longleftrightarrow> toordinal a \<le> toordinal b"
proof
  assume "date_le a b"
  then have "date_lt a b \<or> a = b" by (simp only: date_le_iff)
  then show "toordinal a \<le> toordinal b"
    using toordinal_less [OF assms] by auto
next
  assume le: "toordinal a \<le> toordinal b"
  show "date_le a b"
  proof (cases "toordinal a = toordinal b")
    case True
    with assms have "a = b" by (rule toordinal_inj)
    then show ?thesis by (simp add: date_le_iff)
  next
    case False
    with le have "toordinal a < toordinal b" by simp
    then have "date_lt a b" by (simp only: toordinal_less_iff [OF assms])
    then show ?thesis by (simp add: date_le_iff)
  qed
qed

lemma toordinal_bounds:
  assumes "valid_date d"
  shows "1 \<le> toordinal d" and "toordinal d \<le> MAXORDINAL"
proof -
  from assms have y: "1 \<le> year d" "year d \<le> 9999"
    and v: "1 \<le> month d" "month d \<le> 12" "1 \<le> day d"
      "day d \<le> days_in_month (year d) (month d)"
    by (simp_all add: valid_date_def valid_ymd_def MINYEAR_def MAXYEAR_def)
  have "days_before_year 1 \<le> days_before_year (year d)" using y(1) by (rule dby_mono)
  then show "1 \<le> toordinal d"
    unfolding toordinal_def ymd2ord_def dby_first using day_of_year_bounds(1) [OF v] by simp
  have "toordinal d \<le> days_before_year (year d + 1)"
    unfolding toordinal_def ymd2ord_def dby_step using day_of_year_bounds(2) [OF v] by simp
  also have "\<dots> \<le> days_before_year 10000" using y(2) by (intro dby_mono) simp
  finally show "toordinal d \<le> MAXORDINAL" by (simp add: dby_last MAXORDINAL_def)
qed

lemma fromordinal_correct:
  assumes "1 \<le> n" "n \<le> MAXORDINAL"
  shows "valid_date (fromordinal n)" and "toordinal (fromordinal n) = n"
proof -
  obtain y m d where o: "ord2ymd n = (y, m, d)" by (cases "ord2ymd n") auto
  from ord2ymd_correct [OF assms(1)] o
  have v: "1 \<le> m" "m \<le> 12" "1 \<le> d" "d \<le> days_in_month y m" and e: "ymd2ord y m d = n"
    by simp_all
  have f: "fromordinal n = \<lparr>year = y, month = m, day = d\<rparr>"
    by (simp add: fromordinal_def o)
  show "toordinal (fromordinal n) = n" by (simp add: f toordinal_def e)
  have "1 \<le> y"
  proof (rule ccontr)
    assume "\<not> 1 \<le> y"
    then have "y + 1 \<le> 1" by simp
    then have "days_before_year (y + 1) \<le> days_before_year 1" by (rule dby_mono)
    moreover have "ymd2ord y m d \<le> days_before_year (y + 1)"
      unfolding ymd2ord_def dby_step using day_of_year_bounds(2) [OF v] by simp
    ultimately show False using e assms(1) by (simp add: dby_first)
  qed
  moreover have "y \<le> 9999"
  proof (rule ccontr)
    assume "\<not> y \<le> 9999"
    then have "10000 \<le> y" by simp
    then have "days_before_year 10000 \<le> days_before_year y" by (rule dby_mono)
    moreover have "days_before_year y + 1 \<le> ymd2ord y m d"
      unfolding ymd2ord_def using day_of_year_bounds(1) [OF v] by simp
    ultimately show False using e assms(2) by (simp add: dby_last MAXORDINAL_def)
  qed
  ultimately show "valid_date (fromordinal n)"
    using v by (simp add: f valid_date_def valid_ymd_def MINYEAR_def MAXYEAR_def)
qed

lemma fromordinal_toordinal:
  assumes "valid_date d"
  shows "fromordinal (toordinal d) = d"
proof -
  note b = toordinal_bounds [OF assms]
  from fromordinal_correct [OF b] assms show ?thesis
    by (intro toordinal_inj) simp_all
qed

lemma date_add_ok:
  assumes "valid_date d" "1 \<le> toordinal d + n" "toordinal d + n \<le> MAXORDINAL"
  shows "\<exists>r. date_add d n = Inr r \<and> valid_date r \<and> toordinal r = toordinal d + n"
  using fromordinal_correct [OF assms(2,3)] assms(2,3) by (simp add: date_add_def)

lemma date_add_Inr:
  assumes "valid_date d" "date_add d n = Inr r"
  shows "valid_date r" and "toordinal r = toordinal d + n"
proof -
  from assms(2) have rng: "1 \<le> toordinal d + n" "toordinal d + n \<le> MAXORDINAL"
    and r: "r = fromordinal (toordinal d + n)"
    by (auto simp add: date_add_def Let_def split: if_splits)
  from fromordinal_correct [OF rng] r
  show "valid_date r" and "toordinal r = toordinal d + n" by simp_all
qed

lemma date_add_Inl:
  "date_add d n = Inl e \<longleftrightarrow>
     e = OverflowError \<and> (toordinal d + n < 1 \<or> MAXORDINAL < toordinal d + n)"
  by (auto simp add: date_add_def Let_def)

lemma last_of_month_valid:
  assumes "valid_date d"
  shows "valid_date (last_of_month d)" and "toordinal d \<le> toordinal (last_of_month d)"
proof -
  from assms have y: "1 \<le> year d" "year d \<le> 9999" and m: "1 \<le> month d" "month d \<le> 12"
    and d: "day d \<le> days_in_month (year d) (month d)"
    by (simp_all add: valid_date_def valid_ymd_def MINYEAR_def MAXYEAR_def)
  show v: "valid_date (last_of_month d)"
    using y m dim_bounds [OF m, of "year d"]
    by (simp add: last_of_month_def valid_date_def valid_ymd_def MINYEAR_def MAXYEAR_def)
  have "date_le d (last_of_month d)" using d by (simp add: date_le_def last_of_month_def)
  then show "toordinal d \<le> toordinal (last_of_month d)"
    by (simp only: toordinal_le_iff [OF assms v])
qed

lemma month_end_ok:
  assumes "valid_date d" "\<not> (year d = 9999 \<and> month d = 12)"
  shows "month_end d = Inr (last_of_month d)" and "toordinal (last_of_month d) < MAXORDINAL"
proof -
  let ?me = "last_of_month d"
  from assms(1) have y: "1 \<le> year d" "year d \<le> 9999" and m: "1 \<le> month d" "month d \<le> 12"
    by (simp_all add: valid_date_def valid_ymd_def MINYEAR_def MAXYEAR_def)
  note vme = last_of_month_valid(1) [OF assms(1)]
  note b = toordinal_bounds [OF vme]
  define fn where "fn = (if month d = 12 then \<lparr>year = year d + 1, month = 1, day = 1\<rparr>
                         else \<lparr>year = year d, month = month d + 1, day = 1\<rparr>)"
  have vfn: "valid_date fn"
  proof (cases "month d = 12")
    case True
    with assms(2) y have "year d + 1 \<le> 9999" by simp
    with True y show ?thesis
      by (simp add: fn_def valid_date_def valid_ymd_def MINYEAR_def MAXYEAR_def month_tables)
  next
    case False
    with m have "month d + 1 \<le> 12" by simp
    with False y m dim_bounds [of "month d + 1" "year d"] show ?thesis
      by (simp add: fn_def valid_date_def valid_ymd_def MINYEAR_def MAXYEAR_def)
  qed
  have mk: "(if month d = 12 then mk_date (year d + 1) 1 1 else mk_date (year d) (month d + 1) 1)
      = Inr fn"
    using vfn by (simp add: fn_def mk_date_def valid_date_def split: if_splits)
  have ord: "toordinal fn - 1 = toordinal ?me"
  proof (cases "month d = 12")
    case True
    then show ?thesis
      using dbm_last [of "year d"]
      by (simp add: fn_def last_of_month_def toordinal_def ymd2ord_def dby_step dbm_first)
  next
    case False
    with m have lt: "month d < 12" by simp
    show ?thesis
      using dbm_succ [OF m(1) lt, of "year d"] False
      by (simp add: fn_def last_of_month_def toordinal_def ymd2ord_def)
  qed
  from ord toordinal_bounds(2) [OF vfn] show "toordinal ?me < MAXORDINAL" by simp
  have "date_add fn (- 1) = Inr (fromordinal (toordinal ?me))"
    using ord b by (simp add: date_add_def)
  then show "month_end d = Inr ?me"
    unfolding month_end_def mk by (simp add: fromordinal_toordinal [OF vme])
qed

lemma month_end_err:
  assumes "year d = 9999" "month d = 12"
  shows "month_end d = Inl ValueError_date"
  using assms by (simp add: month_end_def mk_date_def valid_ymd_def MAXYEAR_def)

lemma same_month_between:
  assumes "year a = year b" "month a = month b" "date_le a x" "date_le x b"
  shows "year x = year a \<and> month x = month a"
proof -
  have y1: "year a \<le> year x" using assms(3) unfolding date_le_def by linarith
  have y2: "year x \<le> year b" using assms(4) unfolding date_le_def by linarith
  from y1 y2 assms(1) have y: "year x = year a" by simp
  have "month a \<le> month x" using assms(3) y unfolding date_le_def by linarith
  moreover have "month x \<le> month b" using assms(4) y assms(1) unfolding date_le_def by linarith
  ultimately show ?thesis using y assms(2) by simp
qed

section \<open>The chunk splitter\<close>

text \<open>
  One iteration of the loop, in terms of ordinals; then the loop as a whole: for
  \<open>max_days\<close> at least 1 by induction on the distance to the end date, for a negative
  \<open>max_days\<close> by induction on the ordinal of the cursor, and for \<open>max_days = 0\<close> by
  fixed-point induction, since the cursor does not move.
\<close>

lemma date_min_ord:
  assumes "valid_date a" "valid_date b"
  shows "valid_date (date_min a b)"
    and "toordinal (date_min a b) = min (toordinal a) (toordinal b)"
  using assms by (simp_all add: date_min_def toordinal_less_iff [OF assms(2,1)])

lemma split_loop_unfold:
  "split_loop end_d max_days cur chunks = split_body split_loop end_d max_days cur chunks"
  unfolding split_body_def by (rule split_loop.simps)

lemma split_body_done:
  assumes "\<not> date_le cur e"
  shows "split_body f e md cur acc = Some (Inr acc)"
  using assms by (simp add: split_body_def)

lemma split_body_year_error:
  assumes "date_le cur e" "year cur = 9999" "month cur = 12"
  shows "split_body f e md cur acc = Some (Inl ValueError_date)"
  using assms by (simp add: split_body_def month_end_err)

lemma split_body_overflow:
  assumes "valid_date cur" "date_le cur e" "\<not> (year cur = 9999 \<and> month cur = 12)"
    and "999999999 < \<bar>md - 1\<bar> \<or> toordinal cur + (md - 1) < 1
         \<or> MAXORDINAL < toordinal cur + (md - 1)"
  shows "split_body f e md cur acc = Some (Inl OverflowError)"
proof (cases "999999999 < \<bar>md - 1\<bar>")
  case True
  then have "timedelta_days (md - 1) = Inl OverflowError" by (simp add: timedelta_days_def)
  with assms(2) month_end_ok(1) [OF assms(1,3)] show ?thesis by (simp add: split_body_def)
next
  case False
  then have "timedelta_days (md - 1) = Inr (md - 1)" by (simp add: timedelta_days_def)
  moreover from False assms(4) have "date_add cur (md - 1) = Inl OverflowError"
    by (simp add: date_add_Inl)
  ultimately show ?thesis
    using assms(2) month_end_ok(1) [OF assms(1,3)] by (simp add: split_body_def)
qed

lemma split_body_continue:
  assumes "valid_date cur" "valid_date e" "date_le cur e"
    and nd: "\<not> (year cur = 9999 \<and> month cur = 12)"
    and td: "\<bar>md - 1\<bar> \<le> 999999999"
    and r: "1 \<le> toordinal cur + (md - 1)" "toordinal cur + (md - 1) \<le> MAXORDINAL"
  shows "\<exists>ce nxt. valid_date ce \<and> valid_date nxt
           \<and> toordinal ce = min (min (toordinal (last_of_month cur)) (toordinal e))
                                  (toordinal cur + (md - 1))
           \<and> toordinal nxt = toordinal ce + 1
           \<and> split_body f e md cur acc
               = f e md nxt (acc @ [\<lparr>start_date = cur, end_date = ce\<rparr>])"
proof -
  note me = month_end_ok [OF assms(1) nd]
  note vme = last_of_month_valid [OF assms(1)]
  note cand = date_min_ord [OF vme(1) assms(2)]
  from td have tdv: "timedelta_days (md - 1) = Inr (md - 1)" by (simp add: timedelta_days_def)
  from date_add_ok [OF assms(1) r] obtain mb where
    mb: "date_add cur (md - 1) = Inr mb" "valid_date mb"
      "toordinal mb = toordinal cur + (md - 1)" by blast
  let ?ce = "date_min (date_min (last_of_month cur) e) mb"
  note ce = date_min_ord [OF cand(1) mb(2)]
  have ce_ord: "toordinal ?ce
      = min (min (toordinal (last_of_month cur)) (toordinal e)) (toordinal cur + (md - 1))"
    by (simp only: ce(2) cand(2) mb(3))
  have "toordinal ?ce \<le> toordinal (last_of_month cur)" unfolding ce_ord by simp
  with me(2) toordinal_bounds(1) [OF ce(1)]
  have r': "1 \<le> toordinal ?ce + 1" "toordinal ?ce + 1 \<le> MAXORDINAL" by simp_all
  from date_add_ok [OF ce(1) r'] obtain nxt where
    nxt: "date_add ?ce 1 = Inr nxt" "valid_date nxt" "toordinal nxt = toordinal ?ce + 1"
    by blast
  have "split_body f e md cur acc
      = f e md nxt (acc @ [\<lparr>start_date = cur, end_date = ?ce\<rparr>])"
    using assms(3) me(1) tdv mb(1) nxt(1) by (simp add: split_body_def)
  with ce(1) nxt(2,3) ce_ord show ?thesis by blast
qed

lemma december_9999_le:
  assumes "date_le a b" "valid_date b" "year a = 9999" "month a = 12"
  shows "year b = 9999 \<and> month b = 12"
proof -
  from assms(2) have b: "year b \<le> 9999" "month b \<le> 12"
    by (simp_all add: valid_date_def valid_ymd_def MAXYEAR_def)
  have "year a \<le> year b" using assms(1) unfolding date_le_def by linarith
  with b(1) assms(3) have y: "year b = 9999" by simp
  have "month a \<le> month b" using assms(1) y assms(3) unfolding date_le_def by linarith
  with b(2) assms(4) y show ?thesis by simp
qed

lemma split_loop_pos:
  assumes md: "1 \<le> md" and ve: "valid_date e"
  shows "valid_date cur \<Longrightarrow>
    \<exists>r. split_loop e md cur acc = Some r
      \<and> (\<forall>res. r = Inr res \<longrightarrow>
            (\<exists>cs. res = acc @ cs \<and> list_all (chunk_ok md) cs
                  \<and> chain (toordinal cur) (toordinal e) cs))
      \<and> ((year e < 9999 \<or> month e < 12) \<and> toordinal e + (md - 1) \<le> MAXORDINAL
            \<longrightarrow> (\<exists>res. r = Inr res))"
proof (induction "nat (toordinal e + 1 - toordinal cur)" arbitrary: cur acc rule: less_induct)
  case less
  note vc = less.prems
  note su = split_loop_unfold [of e md cur acc]
  show ?case
  proof (cases "date_le cur e")
    case False
    then have "split_loop e md cur acc = Some (Inr acc)"
      unfolding su by (rule split_body_done)
    moreover from False have "toordinal e < toordinal cur"
      by (simp add: toordinal_le_iff [OF vc ve])
    ultimately show ?thesis by simp
  next
    case le: True
    then have ole: "toordinal cur \<le> toordinal e" by (simp only: toordinal_le_iff [OF vc ve])
    note bc = toordinal_bounds [OF vc]
    show ?thesis
    proof (cases "year cur = 9999 \<and> month cur = 12")
      case True
      then have "split_loop e md cur acc = Some (Inl ValueError_date)"
        unfolding su using le by (intro split_body_year_error) simp_all
      moreover from december_9999_le [OF le ve] True have "year e = 9999 \<and> month e = 12"
        by simp
      ultimately show ?thesis by simp
    next
      case nd: False
      show ?thesis
      proof (cases "999999999 < \<bar>md - 1\<bar> \<or> toordinal cur + (md - 1) < 1
                    \<or> MAXORDINAL < toordinal cur + (md - 1)")
        case True
        have "split_loop e md cur acc = Some (Inl OverflowError)"
          unfolding su using vc le nd True by (rule split_body_overflow)
        moreover from True md bc ole have "\<not> toordinal e + (md - 1) \<le> MAXORDINAL"
          by (auto simp add: MAXORDINAL_def)
        ultimately show ?thesis by simp
      next
        case False
        then have td: "\<bar>md - 1\<bar> \<le> 999999999"
          and r: "1 \<le> toordinal cur + (md - 1)" "toordinal cur + (md - 1) \<le> MAXORDINAL"
          by simp_all
        from split_body_continue [OF vc ve le nd td r, of split_loop acc]
        obtain ce nxt where vce: "valid_date ce" and vn: "valid_date nxt"
          and oce: "toordinal ce = min (min (toordinal (last_of_month cur)) (toordinal e))
                                     (toordinal cur + (md - 1))"
          and on: "toordinal nxt = toordinal ce + 1"
          and eq: "split_loop e md cur acc
                   = split_loop e md nxt (acc @ [\<lparr>start_date = cur, end_date = ce\<rparr>])"
          unfolding su [symmetric] by blast
        note lm = last_of_month_valid [OF vc]
        from oce lm(2) ole md have lo: "toordinal cur \<le> toordinal ce" by simp
        from oce have hi: "toordinal ce \<le> toordinal e"
          "toordinal ce \<le> toordinal (last_of_month cur)"
          "toordinal ce \<le> toordinal cur + (md - 1)" by simp_all
        have dl: "date_le cur ce" "date_le ce (last_of_month cur)"
          using lo hi(2) by (simp_all only: toordinal_le_iff [OF vc vce]
              toordinal_le_iff [OF vce lm(1)])
        have "year cur = year (last_of_month cur)" "month cur = month (last_of_month cur)"
          by (simp_all add: last_of_month_def)
        then have sm: "year ce = year cur \<and> month ce = month cur"
          using dl by (rule same_month_between)
        have ok: "chunk_ok md \<lparr>start_date = cur, end_date = ce\<rparr>"
          using vc vce lo sm nd hi(3) r(2) by (simp add: chunk_ok_def)
        from on lo ole have "nat (toordinal e + 1 - toordinal nxt)
            < nat (toordinal e + 1 - toordinal cur)" by simp
        from less.hyps [OF this vn, of "acc @ [\<lparr>start_date = cur, end_date = ce\<rparr>]"]
        obtain r' where r': "split_loop e md nxt (acc @ [\<lparr>start_date = cur, end_date = ce\<rparr>])
              = Some r'"
          and res: "\<And>res. r' = Inr res \<Longrightarrow>
              \<exists>cs. res = (acc @ [\<lparr>start_date = cur, end_date = ce\<rparr>]) @ cs
                \<and> list_all (chunk_ok md) cs \<and> chain (toordinal nxt) (toordinal e) cs"
          and tot: "(year e < 9999 \<or> month e < 12) \<and> toordinal e + (md - 1) \<le> MAXORDINAL
              \<Longrightarrow> \<exists>res. r' = Inr res"
          by blast
        have "\<exists>cs. res = acc @ cs \<and> list_all (chunk_ok md) cs
              \<and> chain (toordinal cur) (toordinal e) cs" if "r' = Inr res" for res
        proof -
          from res [OF that] obtain cs where
            cs: "res = (acc @ [\<lparr>start_date = cur, end_date = ce\<rparr>]) @ cs"
              "list_all (chunk_ok md) cs" "chain (toordinal nxt) (toordinal e) cs" by blast
          let ?cs = "\<lparr>start_date = cur, end_date = ce\<rparr> # cs"
          have "res = acc @ ?cs" using cs(1) by simp
          moreover have "list_all (chunk_ok md) ?cs" using ok cs(2) by simp
          moreover have "chain (toordinal cur) (toordinal e) ?cs"
            using cs(3) ole hi(1) on by simp
          ultimately show ?thesis by blast
        qed
        with r' tot show ?thesis unfolding eq by blast
      qed
    qed
  qed
qed

lemma split_zero_diverges:
  assumes vc: "valid_date cur" and ve: "valid_date e" and le: "date_le cur e"
    and nd: "\<not> (year cur = 9999 \<and> month cur = 12)" and two: "2 \<le> toordinal cur"
  shows "split_loop e 0 cur acc = None"
proof (rule ccontr)
  assume "split_loop e 0 cur acc \<noteq> None"
  then obtain y where ret: "split_loop e 0 cur acc = Some y" by auto
  define P where "P = (\<lambda>(e::date) (md::int) (cur::date) (acc::chunk list)
      (y::error + chunk list).
      \<not> (md = 0 \<and> valid_date cur \<and> valid_date e \<and> date_le cur e
         \<and> \<not> (year cur = 9999 \<and> month cur = 12) \<and> 2 \<le> toordinal cur))"
  have "P e 0 cur acc y"
  proof (rule split_loop.raw_induct [where P = P, OF _ ret], goal_cases)
    case (1 f e md cur acc y)
    from 1(2) have body: "split_body f e md cur acc = Some y" unfolding split_body_def .
    show ?case unfolding P_def
    proof
      assume c: "md = 0 \<and> valid_date cur \<and> valid_date e \<and> date_le cur e
         \<and> \<not> (year cur = 9999 \<and> month cur = 12) \<and> 2 \<le> toordinal cur"
      then have vc: "valid_date cur" and ve: "valid_date e" and le: "date_le cur e"
        and nd: "\<not> (year cur = 9999 \<and> month cur = 12)" and two: "2 \<le> toordinal cur"
        and md: "md = 0" by simp_all
      from le have ole: "toordinal cur \<le> toordinal e" by (simp only: toordinal_le_iff [OF vc ve])
      note lm = last_of_month_valid [OF vc]
      have td: "\<bar>md - 1\<bar> \<le> 999999999" using md by simp
      have r: "1 \<le> toordinal cur + (md - 1)" "toordinal cur + (md - 1) \<le> MAXORDINAL"
        using md two toordinal_bounds(2) [OF vc] by simp_all
      from split_body_continue [OF vc ve le nd td r, of f acc]
      obtain ce nxt where vn: "valid_date nxt"
        and oce: "toordinal ce = min (min (toordinal (last_of_month cur)) (toordinal e))
                                   (toordinal cur + (md - 1))"
        and on: "toordinal nxt = toordinal ce + 1"
        and eq: "split_body f e md cur acc
                 = f e md nxt (acc @ [\<lparr>start_date = cur, end_date = ce\<rparr>])"
        by blast
      from oce lm(2) ole md have "toordinal ce = toordinal cur - 1" by simp
      with on have "toordinal nxt = toordinal cur" by simp
      with vn vc have "nxt = cur" by (rule toordinal_inj)
      with eq body have "f e md cur (acc @ [\<lparr>start_date = cur, end_date = ce\<rparr>]) = Some y"
        by simp
      then have "P e md cur (acc @ [\<lparr>start_date = cur, end_date = ce\<rparr>]) y" by (rule 1(1))
      with c show False by (simp add: P_def)
    qed
  qed
  with assms show False by (simp add: P_def)
qed

lemma split_negative_raises:
  assumes md: "md < 0" and ve: "valid_date e"
  shows "valid_date cur \<Longrightarrow> date_le cur e \<Longrightarrow>
    split_loop e md cur acc
      = Some (Inl (if year cur = 9999 \<and> month cur = 12 then ValueError_date else OverflowError))"
proof (induction "nat (toordinal cur)" arbitrary: cur acc rule: less_induct)
  case less
  note vc = less.prems(1) and le = less.prems(2)
  note su = split_loop_unfold [of e md cur acc]
  from le have ole: "toordinal cur \<le> toordinal e" by (simp only: toordinal_le_iff [OF vc ve])
  show ?case
  proof (cases "year cur = 9999 \<and> month cur = 12")
    case True
    then show ?thesis unfolding su using le by (simp add: split_body_year_error)
  next
    case nd: False
    show ?thesis
    proof (cases "999999999 < \<bar>md - 1\<bar> \<or> toordinal cur + (md - 1) < 1
                  \<or> MAXORDINAL < toordinal cur + (md - 1)")
      case True
      have "split_body split_loop e md cur acc = Some (Inl OverflowError)"
        using vc le nd True by (rule split_body_overflow)
      with nd show ?thesis unfolding su by simp
    next
      case False
      then have td: "\<bar>md - 1\<bar> \<le> 999999999"
        and r: "1 \<le> toordinal cur + (md - 1)" "toordinal cur + (md - 1) \<le> MAXORDINAL"
        by simp_all
      from split_body_continue [OF vc ve le nd td r, of split_loop acc]
      obtain ce nxt where vn: "valid_date nxt"
        and oce: "toordinal ce = min (min (toordinal (last_of_month cur)) (toordinal e))
                                   (toordinal cur + (md - 1))"
        and on: "toordinal nxt = toordinal ce + 1"
        and eq: "split_loop e md cur acc
                 = split_loop e md nxt (acc @ [\<lparr>start_date = cur, end_date = ce\<rparr>])"
        unfolding su [symmetric] by blast
      note lm = last_of_month_valid [OF vc]
      from oce lm(2) ole md have "toordinal ce = toordinal cur + (md - 1)" by simp
      with on md have lt: "toordinal nxt < toordinal cur" by simp
      with toordinal_bounds(1) [OF vn] have m: "nat (toordinal nxt) < nat (toordinal cur)" by simp
      from lt ole have "toordinal nxt \<le> toordinal e" by simp
      then have le': "date_le nxt e" by (simp only: toordinal_le_iff [OF vn ve])
      from lt have "date_le nxt cur" by (simp add: toordinal_le_iff [OF vn vc])
      from december_9999_le [OF this vc] nd
      have nd': "\<not> (year nxt = 9999 \<and> month nxt = 12)" by blast
      from less.hyps [OF m vn le', of "acc @ [\<lparr>start_date = cur, end_date = ce\<rparr>]"] nd' nd
      show ?thesis unfolding eq by simp
    qed
  qed
qed

lemma rechunk_single:
  assumes md: "1 \<le> md" and ok: "chunk_ok md c"
  shows "split_loop (end_date c) md (start_date c) [] = Some (Inr [c])"
proof -
  let ?s = "start_date c" and ?e = "end_date c"
  from ok have vs: "valid_date ?s" and ve: "valid_date ?e"
    and ole: "toordinal ?s \<le> toordinal ?e"
    and sm: "year ?e = year ?s" "month ?e = month ?s"
    and nd: "\<not> (year ?s = 9999 \<and> month ?s = 12)"
    and span: "toordinal ?e \<le> toordinal ?s + (md - 1)"
    and rng: "toordinal ?s + (md - 1) \<le> MAXORDINAL"
    by (simp_all add: chunk_ok_def)
  from ole have le: "date_le ?s ?e" by (simp only: toordinal_le_iff [OF vs ve])
  note bs = toordinal_bounds [OF vs]
  have td: "\<bar>md - 1\<bar> \<le> 999999999" using md rng bs by (simp add: MAXORDINAL_def)
  have r: "1 \<le> toordinal ?s + (md - 1)" using md bs by simp
  from split_body_continue [OF vs ve le nd td r rng, of split_loop "[]"]
  obtain ce nxt where vce: "valid_date ce" and vn: "valid_date nxt"
    and oce: "toordinal ce = min (min (toordinal (last_of_month ?s)) (toordinal ?e))
                               (toordinal ?s + (md - 1))"
    and on: "toordinal nxt = toordinal ce + 1"
    and eq: "split_loop ?e md ?s [] = split_loop ?e md nxt ([] @ [\<lparr>start_date = ?s, end_date = ce\<rparr>])"
    unfolding split_loop_unfold [of ?e md ?s "[]", symmetric] by blast
  note lm = last_of_month_valid [OF vs]
  from ve have "day ?e \<le> days_in_month (year ?e) (month ?e)"
    by (simp add: valid_date_def valid_ymd_def)
  then have "date_le ?e (last_of_month ?s)" using sm by (simp add: date_le_def last_of_month_def)
  then have "toordinal ?e \<le> toordinal (last_of_month ?s)"
    by (simp only: toordinal_le_iff [OF ve lm(1)])
  with oce span have "toordinal ce = toordinal ?e" by simp
  with vce ve have ce: "ce = ?e" by (rule toordinal_inj)
  have c: "\<lparr>start_date = ?s, end_date = ?e\<rparr> = c" by simp
  from on ce have "\<not> toordinal nxt \<le> toordinal ?e" by simp
  then have "\<not> date_le nxt ?e" by (simp add: toordinal_le_iff [OF vn ve])
  then have "split_loop ?e md nxt [c] = Some (Inr [c])"
    unfolding split_loop_unfold [of ?e md nxt "[c]"] by (rule split_body_done)
  with eq ce c show ?thesis by simp
qed

lemma chain_bounds:
  assumes "list_all (chunk_ok md) cs" "chain s e cs" "c \<in> set cs"
  shows "s \<le> toordinal (start_date c) \<and> toordinal (end_date c) \<le> e"
  using assms
proof (induction cs arbitrary: s)
  case Nil
  then show ?case by simp
next
  case (Cons x xs)
  from Cons.prems(1) have "chunk_ok md x" and okxs: "list_all (chunk_ok md) xs" by simp_all
  then have okx: "toordinal (start_date x) \<le> toordinal (end_date x)"
    by (simp add: chunk_ok_def)
  from Cons.prems(2) have sx: "toordinal (start_date x) = s" and ex: "toordinal (end_date x) \<le> e"
    and ch: "chain (toordinal (end_date x) + 1) e xs" by simp_all
  show ?case
  proof (cases "c = x")
    case True
    with sx ex show ?thesis by simp
  next
    case False
    with Cons.prems(3) have "c \<in> set xs" by simp
    from Cons.IH [OF okxs ch this] okx sx show ?thesis by simp
  qed
qed

lemma chain_non_overlapping:
  assumes "list_all (chunk_ok md) cs" "chain s e cs"
  shows "non_overlapping cs"
proof -
  have v: "date_le (start_date c) (end_date c)" if "chunk_ok md c" for c
    using that by (simp add: chunk_ok_def toordinal_le_iff)
  have a: "list_all (\<lambda>c. date_le (start_date c) (end_date c)) cs"
    using assms(1) v by (simp add: list_all_iff)
  have "sorted_wrt (\<lambda>a b. date_lt (end_date a) (start_date b)) cs"
    using assms
  proof (induction cs arbitrary: s)
    case Nil
    show ?case by simp
  next
    case (Cons x xs)
    from Cons.prems(1) have okx: "chunk_ok md x" and okxs: "list_all (chunk_ok md) xs" by simp_all
    from Cons.prems(2) have ch: "chain (toordinal (end_date x) + 1) e xs" by simp
    have "date_lt (end_date x) (start_date c)" if "c \<in> set xs" for c
    proof -
      from chain_bounds [OF okxs ch that]
      have "toordinal (end_date x) < toordinal (start_date c)" by simp
      moreover from okxs that have "chunk_ok md c" by (simp add: list_all_iff)
      ultimately show ?thesis using okx by (simp add: chunk_ok_def toordinal_less_iff)
    qed
    with Cons.IH [OF okxs ch] show ?case by simp
  qed
  with a show ?thesis by (simp add: non_overlapping_def)
qed

lemma chain_ordered:
  assumes "list_all (chunk_ok md) cs" "chain s e cs"
  shows "ordered cs"
  unfolding ordered_def using assms
proof (induction cs arbitrary: s)
  case Nil
  show ?case by simp
next
  case (Cons x xs)
  from Cons.prems(1) have okx: "chunk_ok md x" and okxs: "list_all (chunk_ok md) xs" by simp_all
  from Cons.prems(2) have ch: "chain (toordinal (end_date x) + 1) e xs" by simp
  have "date_lt (start_date x) (start_date c)" if "c \<in> set xs" for c
  proof -
    from chain_bounds [OF okxs ch that] okx
    have "toordinal (start_date x) < toordinal (start_date c)" by (simp add: chunk_ok_def)
    moreover from okxs that have "chunk_ok md c" by (simp add: list_all_iff)
    ultimately show ?thesis using okx by (simp add: chunk_ok_def toordinal_less_iff)
  qed
  with Cons.IH [OF okxs ch] show ?case by simp
qed

lemma chain_contiguous:
  assumes "list_all (chunk_ok md) cs" "chain s e cs"
  shows "contiguous cs"
  unfolding contiguous_def using assms
proof (induction cs arbitrary: s)
  case Nil
  show ?case by simp
next
  case (Cons x xs)
  from Cons.prems(1) have okx: "chunk_ok md x" and okxs: "list_all (chunk_ok md) xs" by simp_all
  from Cons.prems(2) have ch: "chain (toordinal (end_date x) + 1) e xs" by simp
  note IH = Cons.IH [OF okxs ch]
  show ?case
  proof (cases xs)
    case Nil
    then show ?thesis by simp
  next
    case (Cons y ys)
    with ch have sy: "toordinal (start_date y) = toordinal (end_date x) + 1" by simp
    from okxs Cons have oky: "chunk_ok md y" by simp
    from okx oky have vx: "valid_date (end_date x)" and vy: "valid_date (start_date y)"
      by (simp_all add: chunk_ok_def)
    from toordinal_bounds [OF vy] sy
    have "1 \<le> toordinal (end_date x) + 1" "toordinal (end_date x) + 1 \<le> MAXORDINAL" by simp_all
    from date_add_ok [OF vx this] obtain r where r: "date_add (end_date x) 1 = Inr r"
      "valid_date r" "toordinal r = toordinal (end_date x) + 1" by blast
    from r(2) vy r(3) sy have "r = start_date y" by (intro toordinal_inj) simp_all
    with r(1) IH Cons show ?thesis by simp
  qed
qed

lemma chain_covered_ord:
  assumes "list_all (chunk_ok md) cs" "chain s e cs"
  shows "(\<exists>c\<in>set cs. toordinal (start_date c) \<le> x \<and> x \<le> toordinal (end_date c))
         \<longleftrightarrow> s \<le> x \<and> x \<le> e"
  using assms
proof (induction cs arbitrary: s)
  case Nil
  then show ?case by simp
next
  case (Cons y ys)
  from Cons.prems(1) have "chunk_ok md y" and okys: "list_all (chunk_ok md) ys" by simp_all
  then have oky: "toordinal (start_date y) \<le> toordinal (end_date y)"
    by (simp add: chunk_ok_def)
  from Cons.prems(2) have sy: "toordinal (start_date y) = s" and ey: "toordinal (end_date y) \<le> e"
    and ch: "chain (toordinal (end_date y) + 1) e ys" by simp_all
  have "(\<exists>c\<in>set (y # ys). toordinal (start_date c) \<le> x \<and> x \<le> toordinal (end_date c))
      \<longleftrightarrow> (s \<le> x \<and> x \<le> toordinal (end_date y))
          \<or> (toordinal (end_date y) + 1 \<le> x \<and> x \<le> e)"
    using Cons.IH [OF okys ch] sy by simp
  also have "\<dots> \<longleftrightarrow> s \<le> x \<and> x \<le> e" using oky sy ey by linarith
  finally show ?case .
qed

lemma chain_covered:
  assumes "list_all (chunk_ok md) cs" "chain (toordinal s) (toordinal e) cs"
    and "valid_date s" "valid_date e" "valid_date d"
  shows "covered cs d \<longleftrightarrow> date_le s d \<and> date_le d e"
proof -
  have "covered cs d
      \<longleftrightarrow> (\<exists>c\<in>set cs. toordinal (start_date c) \<le> toordinal d \<and> toordinal d \<le> toordinal (end_date c))"
  proof -
    have "date_le (start_date c) d \<and> date_le d (end_date c)
        \<longleftrightarrow> toordinal (start_date c) \<le> toordinal d \<and> toordinal d \<le> toordinal (end_date c)"
      if "c \<in> set cs" for c
    proof -
      from assms(1) that have "chunk_ok md c" by (simp add: list_all_iff)
      then have "valid_date (start_date c)" "valid_date (end_date c)"
        by (simp_all add: chunk_ok_def)
      then show ?thesis using assms(5) by (simp add: toordinal_le_iff)
    qed
    then show ?thesis by (auto simp add: covered_def list_ex_iff)
  qed
  also have "\<dots> \<longleftrightarrow> toordinal s \<le> toordinal d \<and> toordinal d \<le> toordinal e"
    using assms(1,2) by (rule chain_covered_ord)
  also have "\<dots> \<longleftrightarrow> date_le s d \<and> date_le d e"
    using assms(3-5) by (simp add: toordinal_le_iff)
  finally show ?thesis .
qed

lemma chain_ends:
  assumes "list_all (chunk_ok md) cs" "chain s e cs" "s \<le> e"
  shows "cs \<noteq> [] \<and> toordinal (start_date (hd cs)) = s \<and> toordinal (end_date (last cs)) = e"
  using assms
proof (induction cs arbitrary: s)
  case Nil
  then show ?case by simp
next
  case (Cons y ys)
  from Cons.prems(1) have okys: "list_all (chunk_ok md) ys" by simp
  from Cons.prems(2) have sy: "toordinal (start_date y) = s" and ey: "toordinal (end_date y) \<le> e"
    and ch: "chain (toordinal (end_date y) + 1) e ys" by simp_all
  show ?case
  proof (cases ys)
    case Nil
    with ch ey have "toordinal (end_date y) = e" by simp
    with sy Nil show ?thesis by simp
  next
    case (Cons z zs)
    with ch have "toordinal (end_date y) + 1 \<le> e" by simp
    from Cons.IH [OF okys ch this] sy Cons show ?thesis by simp
  qed
qed

section \<open>Fetching, writing and the loop of main\<close>

text \<open>
  What a call of \<^verbatim>\<open>call_timeframe\<close> adds to the log: between one and
  \<open>RETRY_COUNT\<close> copies of the same request, exactly \<open>RETRY_COUNT\<close> when it fails, and
  nothing to the object store.
\<close>

lemma call_attempts_log:
  assumes "call_attempts ev rq ns last_exc w = (r, w')"
  shows "\<exists>k. k \<le> length ns \<and> requests w' = requests w @ replicate k rq
           \<and> put_calls w' = put_calls w \<and> objects w' = objects w
           \<and> (ns \<noteq> [] \<longrightarrow> 1 \<le> k)
           \<and> (\<forall>e. r = Inl e \<longrightarrow> k = length ns)"
  using assms
proof (induction ns arbitrary: last_exc w)
  case Nil
  then show ?case by auto
next
  case (Cons n ns)
  let ?w1 = "w\<lparr>requests := requests w @ [rq]\<rparr>"
  show ?case
  proof (cases "attempt (net ev (length (requests w)))")
    case (Inr body)
    with Cons.prems have "r = Inr body" "w' = ?w1" by (simp_all add: Let_def)
    then have "1 \<le> length (n # ns) \<and> requests w' = requests w @ replicate 1 rq
           \<and> put_calls w' = put_calls w \<and> objects w' = objects w
           \<and> (n # ns \<noteq> [] \<longrightarrow> 1 \<le> (1::nat))
           \<and> (\<forall>e. r = Inl e \<longrightarrow> 1 = length (n # ns))" by simp
    then show ?thesis by blast
  next
    case (Inl c)
    with Cons.prems have "call_attempts ev rq ns (Some c) ?w1 = (r, w')" by (simp add: Let_def)
    from Cons.IH [OF this] obtain k where k: "k \<le> length ns"
      "requests w' = requests ?w1 @ replicate k rq"
      "put_calls w' = put_calls ?w1" "objects w' = objects ?w1"
      "\<forall>e. r = Inl e \<longrightarrow> k = length ns" by blast
    have "requests w' = requests w @ replicate (Suc k) rq"
      using k(2) by (simp add: replicate_append_same)
    with k have "Suc k \<le> length (n # ns) \<and> requests w' = requests w @ replicate (Suc k) rq
           \<and> put_calls w' = put_calls w \<and> objects w' = objects w
           \<and> (n # ns \<noteq> [] \<longrightarrow> 1 \<le> Suc k)
           \<and> (\<forall>e. r = Inl e \<longrightarrow> Suc k = length (n # ns))" by simp
    then show ?thesis by blast
  qed
qed

lemma call_attempts_error:
  assumes "call_attempts ev rq ns last_exc w = (Inl e, w')"
  shows "\<exists>c. e = FetchFailed c \<and> (last_exc \<noteq> None \<or> ns \<noteq> [] \<longrightarrow> c \<noteq> None)"
  using assms
proof (induction ns arbitrary: last_exc w)
  case Nil
  then show ?case by auto
next
  case (Cons n ns)
  show ?case
  proof (cases "attempt (net ev (length (requests w)))")
    case (Inr body)
    with Cons.prems show ?thesis by (simp add: Let_def)
  next
    case (Inl c)
    with Cons.prems have "call_attempts ev rq ns (Some c) (w\<lparr>requests := requests w @ [rq]\<rparr>)
        = (Inl e, w')" by (simp add: Let_def)
    from Cons.IH [OF this] show ?thesis by auto
  qed
qed

lemma attempts_list: "[1..<RETRY_COUNT + 1] = [1, 2, 3]"
  by (simp add: RETRY_COUNT_def upt_rec)

lemma call_timeframe_log:
  assumes "call_timeframe ev sd ed cs key w = (r, w')"
  shows "\<exists>k. 1 \<le> k \<and> k \<le> RETRY_COUNT
           \<and> requests w' = requests w @ replicate k (build_params sd ed cs key)
           \<and> put_calls w' = put_calls w \<and> objects w' = objects w
           \<and> (\<forall>e. r = Inl e \<longrightarrow> k = RETRY_COUNT \<and> (\<exists>c. e = FetchFailed (Some c)))"
proof -
  let ?ns = "[1, 2, 3] :: nat list"
  from assms have ca: "call_attempts ev (build_params sd ed cs key) ?ns None w = (r, w')"
    by (simp only: call_timeframe_def attempts_list)
  from call_attempts_log [OF ca] obtain k where k: "k \<le> length ?ns"
    "requests w' = requests w @ replicate k (build_params sd ed cs key)"
    "put_calls w' = put_calls w" "objects w' = objects w" "?ns \<noteq> [] \<longrightarrow> 1 \<le> k"
    "\<forall>e. r = Inl e \<longrightarrow> k = length ?ns" by blast
  have len: "length ?ns = RETRY_COUNT" by (simp add: RETRY_COUNT_def)
  have e: "\<exists>c. e = FetchFailed (Some c)" if "r = Inl e" for e
  proof -
    from ca that have "call_attempts ev (build_params sd ed cs key) ?ns None w = (Inl e, w')"
      by simp
    from call_attempts_error [OF this] show ?thesis by auto
  qed
  from k(5) have "1 \<le> k" by simp
  with k(1-4,6) e show ?thesis unfolding len by blast
qed

text \<open>
  Which outcomes of a request end an attempt with an exception, and which make it
  return; the result of the call from the results of its attempts.
\<close>

lemma attempt_fails:
  shows "attempt Raised = Inl TransportError"
    and "json_body r = None \<Longrightarrow> attempt (Returned r) = Inl NonJSONResponse"
    and "json_body r = Some body \<Longrightarrow> is_dict body
         \<Longrightarrow> dict_get body ''success'' = Some (JBool False)
         \<Longrightarrow> attempt (Returned r) = Inl (ApiSuccessFalse (dict_get body ''error''))"
    and "json_body r = Some body \<Longrightarrow> is_dict body \<Longrightarrow> field_nonempty body ''error''
         \<Longrightarrow> \<exists>c. attempt (Returned r) = Inl c"
    and "400 \<le> status_code r \<Longrightarrow> status_code r < 600 \<Longrightarrow> \<exists>c. attempt (Returned r) = Inl c"
  by (auto simp add: attempt_def raise_for_status_def split: option.splits)

lemma attempt_returns:
  "attempt out = Inr body \<longleftrightarrow>
     (\<exists>r. out = Returned r \<and> json_body r = Some body
        \<and> \<not> (is_dict body \<and> dict_get body ''success'' = Some (JBool False))
        \<and> \<not> (is_dict body \<and> field_nonempty body ''error'')
        \<and> \<not> (400 \<le> status_code r \<and> status_code r < 600))"
  by (cases out) (auto simp add: attempt_def raise_for_status_def split: option.splits)

lemma call_timeframe_first_success:
  assumes "attempt (net ev (length (requests w))) = Inr body"
  shows "call_timeframe ev sd ed cs key w
    = (Inr body, w\<lparr>requests := requests w @ [build_params sd ed cs key]\<rparr>)"
  unfolding call_timeframe_def attempts_list using assms by (simp add: Let_def)

lemma call_timeframe_retry:
  assumes "attempt (net ev (length (requests w))) = Inl c1"
    and "attempt (net ev (length (requests w) + 1)) = Inr body"
  shows "call_timeframe ev sd ed cs key w
    = (Inr body, w\<lparr>requests := requests w @ [build_params sd ed cs key,
                                                    build_params sd ed cs key]\<rparr>)"
  unfolding call_timeframe_def attempts_list using assms by (simp add: Let_def)

lemma call_timeframe_exhausted:
  assumes "attempt (net ev (length (requests w))) = Inl c1"
    and "attempt (net ev (length (requests w) + 1)) = Inl c2"
    and "attempt (net ev (length (requests w) + 2)) = Inl c3"
  shows "call_timeframe ev sd ed cs key w
    = (Inl (FetchFailed (Some c3)),
       w\<lparr>requests := requests w @ [build_params sd ed cs key, build_params sd ed cs key,
                                           build_params sd ed cs key]\<rparr>)"
  unfolding call_timeframe_def attempts_list using assms by (simp add: Let_def)

text \<open>
  The upload helper: what it refuses, and what it logs.
\<close>

lemma upload_rejected:
  assumes "prefix ''s3://'' uri"
    and "sublist ''/currency-script/'' uri \<or> suffix ''currency.py'' uri"
  shows "upload_json_to_s3 ev obj uri w = (Inl WriteRejected, w)"
  using assms by (simp add: upload_json_to_s3_def)

lemma upload_guarded:
  assumes "sublist ''/currency-script/'' uri \<or> suffix ''currency.py'' uri"
  shows "upload_json_to_s3 ev obj uri w
    = (Inl (if prefix ''s3://'' uri then WriteRejected else ValueError_s3_path), w)"
  using assms by (simp add: upload_json_to_s3_def)

lemma upload_error:
  assumes "upload_json_to_s3 ev obj uri w = (Inl e, w')"
  shows "e = ValueError_s3_path \<or> e = WriteRejected \<or> e = WriteFailed"
    and "requests w' = requests w" and "objects w' = objects w"
  using assms by (auto simp add: upload_json_to_s3_def Let_def split: if_splits)

lemma upload_ok:
  assumes "upload_json_to_s3 ev obj uri w = (Inr u, w')"
  shows "requests w' = requests w"
    and "objects w' = objects w @ [(partition_slash (drop 5 uri), obj)]"
    and "put_calls w' = put_calls w @ [partition_slash (drop 5 uri)]"
  using assms by (auto simp add: upload_json_to_s3_def Let_def split: if_splits)

text \<open>
  The loop of \<^verbatim>\<open>main\<close>: it runs over a concatenation in sequence, the flag
  \<^verbatim>\<open>any_uploaded\<close> never goes back to false, and a loop that ends with the flag false has
  written nothing.
\<close>

lemma process_chunks_append:
  "process_chunks ev a out (xs @ ys) any w
   = (case process_chunks ev a out xs any w of
        (Inl e, w') \<Rightarrow> (Inl e, w')
      | (Inr any', w') \<Rightarrow> process_chunks ev a out ys any' w')"
proof (induction xs arbitrary: any w)
  case Nil
  show ?case by simp
next
  case (Cons x xs)
  show ?case
    by (simp add: Cons.IH split: prod.splits sum.splits verdict.splits)
qed

lemma process_chunks_flag:
  assumes "process_chunks ev a out cs True w = (Inr b, w')"
  shows "b"
  using assms
proof (induction cs arbitrary: w)
  case Nil
  then show ?case by simp
next
  case (Cons c cs)
  then show ?case
    by (auto split: prod.splits sum.splits verdict.splits)
qed

lemma process_chunks_nothing_written:
  assumes "process_chunks ev a out cs False w = (Inr False, w')"
  shows "objects w' = objects w \<and> put_calls w' = put_calls w"
  using assms
proof (induction cs arbitrary: w)
  case Nil
  then show ?case by simp
next
  case (Cons c cs)
  obtain r w1 where ct: "call_timeframe ev (isoformat (start_date c)) (isoformat (end_date c))
      (arg_currencies a) (arg_access_key a) w = (r, w1)" by (cases "call_timeframe ev
      (isoformat (start_date c)) (isoformat (end_date c)) (arg_currencies a) (arg_access_key a) w")
  from call_timeframe_log [OF ct] have same: "put_calls w1 = put_calls w" "objects w1 = objects w"
    by auto
  show ?case
  proof (cases r)
    case (Inl e)
    with ct Cons.prems show ?thesis by simp
  next
    case (Inr data)
    show ?thesis
    proof (cases "validate data")
      case Skippable
      with ct Inr Cons.prems have "process_chunks ev a out cs False w1 = (Inr False, w')" by simp
      from Cons.IH [OF this] same show ?thesis by simp
    next
      case Usable
      obtain r2 w2 where up: "upload_json_to_s3 ev data (s3_target out c) w1 = (r2, w2)"
        by (cases "upload_json_to_s3 ev data (s3_target out c) w1")
      show ?thesis
      proof (cases r2)
        case (Inl e)
        with ct Inr Usable up Cons.prems show ?thesis by simp
      next
        case (Inr u)
        with ct \<open>r = Inr data\<close> Usable up Cons.prems
        have "process_chunks ev a out cs True w2 = (Inr False, w')" by simp
        from process_chunks_flag [OF this] show ?thesis by simp
      qed
    qed
  qed
qed

lemma process_chunks_fetch_error:
  assumes "call_timeframe ev (isoformat (start_date c)) (isoformat (end_date c))
      (arg_currencies a) (arg_access_key a) w = (Inl e, w1)"
  shows "process_chunks ev a out (c # cs) any_uploaded w = (Inl e, w1)"
  using assms by simp

lemma process_chunks_skip:
  assumes "call_timeframe ev (isoformat (start_date c)) (isoformat (end_date c))
      (arg_currencies a) (arg_access_key a) w = (Inr data, w1)"
    and "validate data = Skippable"
  shows "process_chunks ev a out (c # cs) any_uploaded w = process_chunks ev a out cs any_uploaded w1"
  using assms by simp

lemma process_chunks_write_error:
  assumes "call_timeframe ev (isoformat (start_date c)) (isoformat (end_date c))
      (arg_currencies a) (arg_access_key a) w = (Inr data, w1)"
    and "validate data = Usable"
    and "upload_json_to_s3 ev data (s3_target out c) w1 = (Inl e, w2)"
  shows "process_chunks ev a out (c # cs) any_uploaded w = (Inl e, w2)"
  using assms by simp

lemma main_aborts:
  assumes "main_prelude a = Some (Inr (out, pre @ c # post))"
    and "process_chunks ev a out pre False world0 = (Inr any_uploaded, w1)"
    and "process_chunks ev a out (c # post) any_uploaded w1 = (Inl e, w2)"
  shows "main ev a = Some (Inl e, w2)"
  using assms by (simp add: main_def main_loop_def process_chunks_append)

text \<open>
  With \<open>max_days\<close> at most 0 the run never reaches the loop.
\<close>

lemma date_le_total: "\<not> date_lt b a \<Longrightarrow> date_le a b"
  using date_trichotomy [of a b] by (auto simp add: date_le_iff)

lemma date_lt_imp_le: "date_lt a b \<Longrightarrow> date_le a b"
  by (simp add: date_le_iff)

section \<open>The claims about the chunk splitter\<close>

text \<open>
  The definitions unfolded to evaluate the date computations of a concrete run, and
  what a returned chunk list satisfies.
\<close>

lemmas date_eval =
  date_le_def date_lt_def date_min_def month_end_def mk_date_def valid_ymd_def valid_date_def
  date_add_def toordinal_def fromordinal_def ymd2ord_def ord2ymd_def month_day_def
  days_before_year_def days_before_month_def days_in_month_def is_leap_def
  DAYS_IN_MONTH_def DAYS_BEFORE_MONTH_def timedelta_days_def
  MINYEAR_def MAXYEAR_def MAXORDINAL_def Let_def

lemma split_loop_result:
  assumes "1 \<le> md" "valid_date s" "valid_date e"
    and "split_into_month_aligned_chunks s e md = Some (Inr cs)"
  shows "list_all (chunk_ok md) cs" and "chain (toordinal s) (toordinal e) cs"
proof -
  from split_loop_pos [OF assms(1,3,2), of "[]"] assms(4)
  have "\<exists>cs'. cs = [] @ cs' \<and> list_all (chunk_ok md) cs'
      \<and> chain (toordinal s) (toordinal e) cs'"
    by (auto simp add: split_into_month_aligned_chunks_def)
  then show "list_all (chunk_ok md) cs" and "chain (toordinal s) (toordinal e) cs" by simp_all
qed

text \<open>
  The specification's scenario B: 2025-05-15 to 2025-06-10 with \<open>max_days = 365\<close> gives the
  two chunks (05-15, 05-31) and (06-01, 06-10).
\<close>

lemma scenario_B:
  "split_into_month_aligned_chunks \<lparr>year = 2025, month = 5, day = 15\<rparr>
      \<lparr>year = 2025, month = 6, day = 10\<rparr> 365
   = Some (Inr [\<lparr>start_date = \<lparr>year = 2025, month = 5, day = 15\<rparr>,
                   end_date = \<lparr>year = 2025, month = 5, day = 31\<rparr>\<rparr>,
                 \<lparr>start_date = \<lparr>year = 2025, month = 6, day = 1\<rparr>,
                   end_date = \<lparr>year = 2025, month = 6, day = 10\<rparr>\<rparr>])"
  by (simp add: split_into_month_aligned_chunks_def split_loop.simps date_eval)

text \<open>
  When the splitter returns a list for \<open>s\<close> not after \<open>e\<close> and \<open>max_days\<close> at least 1, the
  list is not empty, ordered, contiguous and non-overlapping, starts at \<open>s\<close>, ends at \<open>e\<close>
  and covers exactly the dates from \<open>s\<close> to \<open>e\<close>. It returns a list whenever \<open>e\<close> is before
  December 9999 and \<open>e\<close> plus \<open>max_days - 1\<close> days is still a date.
\<close>

lemma returned_chunks_partition:
  assumes "valid_date s" "valid_date e" "date_le s e" "1 \<le> md"
    and "split_into_month_aligned_chunks s e md = Some (Inr cs)"
  shows "cs \<noteq> []" and "ordered cs" and "contiguous cs" and "non_overlapping cs"
    and "start_date (hd cs) = s" and "end_date (last cs) = e"
    and "valid_date d \<Longrightarrow> covered cs d \<longleftrightarrow> date_le s d \<and> date_le d e"
proof -
  note r = split_loop_result [OF assms(4,1,2,5)]
  from assms(3) have le: "toordinal s \<le> toordinal e"
    by (simp only: toordinal_le_iff [OF assms(1,2)])
  note ends = chain_ends [OF r le]
  from ends show ne: "cs \<noteq> []" by simp
  show "ordered cs" using r by (rule chain_ordered)
  show "contiguous cs" using r by (rule chain_contiguous)
  show "non_overlapping cs" using r by (rule chain_non_overlapping)
  from ne have "hd cs \<in> set cs" "last cs \<in> set cs" by simp_all
  with r(1) have "chunk_ok md (hd cs)" "chunk_ok md (last cs)" by (simp_all add: list_all_iff)
  then have v: "valid_date (start_date (hd cs))" "valid_date (end_date (last cs))"
    by (simp_all add: chunk_ok_def)
  from v(1) assms(1) ends show "start_date (hd cs) = s" by (intro toordinal_inj) simp_all
  from v(2) assms(2) ends show "end_date (last cs) = e" by (intro toordinal_inj) simp_all
  show "covered cs d \<longleftrightarrow> date_le s d \<and> date_le d e" if "valid_date d"
    using r assms(1,2) that by (rule chain_covered)
qed

lemma split_returns_in_range:
  assumes "valid_date s" "valid_date e" "1 \<le> md"
    and "year e < 9999 \<or> month e < 12" and "toordinal e + (md - 1) \<le> MAXORDINAL"
  shows "\<exists>cs. split_into_month_aligned_chunks s e md = Some (Inr cs)"
  using split_loop_pos [OF assms(3,2,1), of "[]"] assms(4,5)
  by (auto simp add: split_into_month_aligned_chunks_def)

text \<open>
  Claim C1 says that for all dates \<open>s\<close> not after \<open>e\<close> and every \<open>max_days\<close> at least 1 the
  splitter returns a non-empty, ordered, contiguous, non-overlapping chunk sequence from
  \<open>s\<close> to \<open>e\<close> whose union is the interval. The code does so in the range of the two lemmas
  above, and raises at the end of the range of \<^verbatim>\<open>date\<close>: for \<open>s = e =\<close> 9999-12-31 and
  \<open>max_days = 1\<close>, \<^verbatim>\<open>month_end\<close> asks for January of the year 10000 and raises
  \<^verbatim>\<open>ValueError\<close>, although its documentation promises the last day of the month of every
  date; and for May 2025 with \<open>max_days = 4000000\<close>, \<^verbatim>\<open>cur + timedelta(days=max_days - 1)\<close>
  raises \<^verbatim>\<open>OverflowError\<close> before the minimum with the end of the month is taken.
\<close>

theorem split_raises_at_range_end:
  "split_into_month_aligned_chunks \<lparr>year = 9999, month = 12, day = 31\<rparr>
      \<lparr>year = 9999, month = 12, day = 31\<rparr> 1 = Some (Inl ValueError_date)
   \<and> split_into_month_aligned_chunks \<lparr>year = 2025, month = 5, day = 1\<rparr>
      \<lparr>year = 2025, month = 5, day = 31\<rparr> 4000000 = Some (Inl OverflowError)"
  by (simp add: split_into_month_aligned_chunks_def split_loop.simps date_eval)

text \<open>
  Claim C2. For dates \<open>s\<close> and \<open>e\<close> and \<open>max_days\<close> at least 1, every chunk of the list that
  \<^verbatim>\<open>split_into_month_aligned_chunks(s, e, max_days)\<close> returns has its start and its end in
  the same calendar year and month, and spans at most \<open>max_days\<close> days. (The order of \<open>s\<close>
  and \<open>e\<close> is not needed: the list is empty when \<open>s\<close> is after \<open>e\<close>.)
\<close>

theorem chunks_within_month_and_max_days:
  assumes "valid_date s" "valid_date e" "1 \<le> max_days"
    and "split_into_month_aligned_chunks s e max_days = Some (Inr cs)"
    and "c \<in> set cs"
  shows "same_month c \<and> span_days c \<le> max_days"
proof -
  from split_loop_result(1) [OF assms(3,1,2,4)] assms(5) have "chunk_ok max_days c"
    by (simp add: list_all_iff)
  then show ?thesis by (simp add: chunk_ok_def same_month_def span_days_def)
qed

theorem chunks_within_month_and_max_days_witness:
  "valid_date \<lparr>year = 2025, month = 5, day = 15\<rparr>
   \<and> valid_date \<lparr>year = 2025, month = 6, day = 10\<rparr>
   \<and> (1::int) \<le> 365
   \<and> split_into_month_aligned_chunks \<lparr>year = 2025, month = 5, day = 15\<rparr>
        \<lparr>year = 2025, month = 6, day = 10\<rparr> 365
      = Some (Inr [\<lparr>start_date = \<lparr>year = 2025, month = 5, day = 15\<rparr>,
                      end_date = \<lparr>year = 2025, month = 5, day = 31\<rparr>\<rparr>,
                    \<lparr>start_date = \<lparr>year = 2025, month = 6, day = 1\<rparr>,
                      end_date = \<lparr>year = 2025, month = 6, day = 10\<rparr>\<rparr>])
   \<and> same_month \<lparr>start_date = \<lparr>year = 2025, month = 5, day = 15\<rparr>,
                    end_date = \<lparr>year = 2025, month = 5, day = 31\<rparr>\<rparr>
   \<and> span_days \<lparr>start_date = \<lparr>year = 2025, month = 5, day = 15\<rparr>,
                   end_date = \<lparr>year = 2025, month = 5, day = 31\<rparr>\<rparr> \<le> 365"
proof -
  have v: "valid_date \<lparr>year = 2025, month = 5, day = 15\<rparr>"
    "valid_date \<lparr>year = 2025, month = 6, day = 10\<rparr>"
    by (simp_all add: date_eval)
  have m: "(1::int) \<le> 365" by simp
  from chunks_within_month_and_max_days [OF v m scenario_B, of
      "\<lparr>start_date = \<lparr>year = 2025, month = 5, day = 15\<rparr>,
        end_date = \<lparr>year = 2025, month = 5, day = 31\<rparr>\<rparr>"]
  show ?thesis using v scenario_B by simp
qed

text \<open>
  Claim C9. Chunking is idempotent: for \<open>max_days\<close> at least 1 and every chunk \<open>c\<close> of the
  list returned by \<^verbatim>\<open>split_into_month_aligned_chunks(s, e, max_days)\<close>, splitting the range
  of \<open>c\<close> with the same \<open>max_days\<close> returns exactly the list of the one chunk \<open>c\<close>.
\<close>

theorem rechunking_returns_the_chunk:
  assumes "valid_date s" "valid_date e" "1 \<le> max_days"
    and "split_into_month_aligned_chunks s e max_days = Some (Inr cs)"
    and "c \<in> set cs"
  shows "split_into_month_aligned_chunks (start_date c) (end_date c) max_days = Some (Inr [c])"
proof -
  from split_loop_result(1) [OF assms(3,1,2,4)] assms(5) have "chunk_ok max_days c"
    by (simp add: list_all_iff)
  with assms(3) show ?thesis
    unfolding split_into_month_aligned_chunks_def by (rule rechunk_single)
qed

theorem rechunking_returns_the_chunk_witness:
  "valid_date \<lparr>year = 2025, month = 5, day = 15\<rparr>
   \<and> valid_date \<lparr>year = 2025, month = 6, day = 10\<rparr>
   \<and> (1::int) \<le> 365
   \<and> split_into_month_aligned_chunks \<lparr>year = 2025, month = 5, day = 15\<rparr>
        \<lparr>year = 2025, month = 6, day = 10\<rparr> 365 = Some (Inr [chunk_may, chunk_june])
   \<and> chunk_june \<in> set [chunk_may, chunk_june]
   \<and> split_into_month_aligned_chunks (start_date chunk_june) (end_date chunk_june) 365
       = Some (Inr [chunk_june])"
proof -
  have v: "valid_date \<lparr>year = 2025, month = 5, day = 15\<rparr>"
    "valid_date \<lparr>year = 2025, month = 6, day = 10\<rparr>"
    by (simp_all add: date_eval)
  have m: "(1::int) \<le> 365" by simp
  have s: "split_into_month_aligned_chunks \<lparr>year = 2025, month = 5, day = 15\<rparr>
        \<lparr>year = 2025, month = 6, day = 10\<rparr> 365 = Some (Inr [chunk_may, chunk_june])"
    by (simp add: scenario_B chunk_may_def chunk_june_def)
  have i: "chunk_june \<in> set [chunk_may, chunk_june]" by simp
  from rechunking_returns_the_chunk [OF v m s i] v m s i show ?thesis by simp
qed

text \<open>
  Termination of the loop. With \<open>max_days\<close> at least 1 the cursor advances and the call
  ends. With \<open>max_days = 0\<close> the cursor stays where it is: the loop never ends, unless the
  first iteration raises (in December 9999, or on 0001-01-01, where
  \<^verbatim>\<open>cur + timedelta(days=-1)\<close> is out of range). With a negative \<open>max_days\<close> the cursor moves
  back by \<open>- max_days\<close> days in every iteration, so the call ends with the
  \<^verbatim>\<open>OverflowError\<close> of \<^verbatim>\<open>cur + timedelta(days=max_days - 1)\<close> at the start of the range of
  \<^verbatim>\<open>date\<close>.
\<close>

lemma split_terminates_pos:
  assumes "valid_date s" "valid_date e" "1 \<le> md"
  shows "\<exists>r. split_into_month_aligned_chunks s e md = Some r"
  using split_loop_pos [OF assms(3,2,1), of "[]"]
  by (auto simp add: split_into_month_aligned_chunks_def)

lemma split_zero:
  assumes "valid_date s" "valid_date e" "date_le s e"
  shows "split_into_month_aligned_chunks s e 0
    = (if year s = 9999 \<and> month s = 12 then Some (Inl ValueError_date)
       else if toordinal s < 2 then Some (Inl OverflowError) else None)"
proof (cases "year s = 9999 \<and> month s = 12")
  case True
  then have "split_body split_loop e 0 s [] = Some (Inl ValueError_date)"
    using assms(3) by (intro split_body_year_error) simp_all
  with True show ?thesis
    by (simp add: split_into_month_aligned_chunks_def split_loop_unfold [of e 0 s "[]"])
next
  case nd: False
  show ?thesis
  proof (cases "toordinal s < 2")
    case True
    then have "999999999 < \<bar>0 - 1 :: int\<bar> \<or> toordinal s + (0 - 1) < 1
        \<or> MAXORDINAL < toordinal s + (0 - 1)" by simp
    with assms(1,3) nd have "split_body split_loop e 0 s [] = Some (Inl OverflowError)"
      by (rule split_body_overflow)
    with nd True show ?thesis
      by (simp add: split_into_month_aligned_chunks_def split_loop_unfold [of e 0 s "[]"])
  next
    case False
    then have "2 \<le> toordinal s" by simp
    with assms nd have "split_loop e 0 s [] = None" by (intro split_zero_diverges)
    with nd False show ?thesis by (simp add: split_into_month_aligned_chunks_def)
  qed
qed

lemma split_negative:
  assumes "valid_date s" "valid_date e" "date_le s e" "md < 0"
  shows "split_into_month_aligned_chunks s e md
    = Some (Inl (if year s = 9999 \<and> month s = 12 then ValueError_date else OverflowError))"
  unfolding split_into_month_aligned_chunks_def
  using assms(4,2,1,3) by (rule split_negative_raises)

lemma split_nonpositive:
  assumes "valid_date s" "valid_date e" "date_le s e" "md \<le> 0"
  shows "split_into_month_aligned_chunks s e md = None
    \<or> split_into_month_aligned_chunks s e md = Some (Inl ValueError_date)
    \<or> split_into_month_aligned_chunks s e md = Some (Inl OverflowError)"
proof (cases "md = 0")
  case True
  with split_zero [OF assms(1-3)] show ?thesis by simp
next
  case False
  with assms(4) have "md < 0" by simp
  with split_negative [OF assms(1-3)] show ?thesis by simp
qed

text \<open>
  Claim C10, amended. For dates \<open>s\<close> not after \<open>e\<close>,
  \<^verbatim>\<open>split_into_month_aligned_chunks(s, e, max_days)\<close> terminates for every \<open>max_days\<close> at least
  1 (it returns or raises); for \<open>max_days = 0\<close> it never terminates when \<open>s\<close> is after
  0001-01-01 and not in December 9999, and raises at once otherwise; for \<open>max_days\<close> below 0
  it always terminates, by raising \<^verbatim>\<open>OverflowError\<close> (\<^verbatim>\<open>ValueError\<close> when \<open>s\<close> is in December
  9999). The claim as stated, no termination for every \<open>max_days\<close> at most 0, fails for every
  negative \<open>max_days\<close>.
\<close>

theorem split_termination:
  assumes "valid_date s" "valid_date e" "date_le s e"
  shows "(1 \<le> max_days \<longrightarrow> (\<exists>r. split_into_month_aligned_chunks s e max_days = Some r))
    \<and> (max_days = 0
         \<longrightarrow> split_into_month_aligned_chunks s e max_days
             = (if year s = 9999 \<and> month s = 12 then Some (Inl ValueError_date)
                else if toordinal s < 2 then Some (Inl OverflowError) else None))
    \<and> (max_days < 0
         \<longrightarrow> split_into_month_aligned_chunks s e max_days
             = Some (Inl (if year s = 9999 \<and> month s = 12 then ValueError_date
                          else OverflowError)))"
  using split_terminates_pos [OF assms(1,2)] split_zero [OF assms] split_negative [OF assms]
  by simp

theorem split_termination_witness:
  "valid_date \<lparr>year = 2025, month = 5, day = 15\<rparr>
   \<and> valid_date \<lparr>year = 2025, month = 6, day = 10\<rparr>
   \<and> date_le \<lparr>year = 2025, month = 5, day = 15\<rparr> \<lparr>year = 2025, month = 6, day = 10\<rparr>
   \<and> (\<exists>r. split_into_month_aligned_chunks \<lparr>year = 2025, month = 5, day = 15\<rparr>
              \<lparr>year = 2025, month = 6, day = 10\<rparr> 365 = Some r)
   \<and> 2 \<le> toordinal \<lparr>year = 2025, month = 5, day = 15\<rparr>
   \<and> split_into_month_aligned_chunks \<lparr>year = 2025, month = 5, day = 15\<rparr>
        \<lparr>year = 2025, month = 6, day = 10\<rparr> 0 = None
   \<and> split_into_month_aligned_chunks \<lparr>year = 2025, month = 5, day = 15\<rparr>
        \<lparr>year = 2025, month = 6, day = 10\<rparr> (- 1) = Some (Inl OverflowError)"
proof -
  let ?s = "\<lparr>year = 2025, month = 5, day = 15\<rparr>" and ?e = "\<lparr>year = 2025, month = 6, day = 10\<rparr>"
  have v: "valid_date ?s" "valid_date ?e" "date_le ?s ?e"
    by (simp_all add: date_eval)
  have two: "2 \<le> toordinal ?s" by (simp add: date_eval)
  from split_termination [OF v, of 365] split_termination [OF v, of 0]
    split_termination [OF v, of "- 1"] v two
  show ?thesis by simp
qed

theorem split_negative_counterexample:
  "date_le \<lparr>year = 1, month = 1, day = 2\<rparr> \<lparr>year = 1, month = 1, day = 2\<rparr>
   \<and> (- 1 :: int) \<le> 0
   \<and> split_into_month_aligned_chunks \<lparr>year = 1, month = 1, day = 2\<rparr>
        \<lparr>year = 1, month = 1, day = 2\<rparr> (- 1) = Some (Inl OverflowError)
   \<and> date_le \<lparr>year = 2025, month = 1, day = 1\<rparr> \<lparr>year = 2025, month = 1, day = 31\<rparr>
   \<and> split_into_month_aligned_chunks \<lparr>year = 2025, month = 1, day = 1\<rparr>
        \<lparr>year = 2025, month = 1, day = 31\<rparr> (- 1) = Some (Inl OverflowError)"
proof -
  let ?a = "\<lparr>year = 1, month = 1, day = 2\<rparr>"
  let ?s = "\<lparr>year = 2025, month = 1, day = 1\<rparr>" and ?e = "\<lparr>year = 2025, month = 1, day = 31\<rparr>"
  have va: "valid_date ?a" "valid_date ?a" "date_le ?a ?a" by (simp_all add: date_eval)
  have v: "valid_date ?s" "valid_date ?e" "date_le ?s ?e" by (simp_all add: date_eval)
  from split_negative [OF va, of "- 1"] split_negative [OF v, of "- 1"] va v
  show ?thesis by simp
qed

section \<open>The claims about fetching, validating and writing\<close>

text \<open>
  The example runs, evaluated.
\<close>

lemmas run_eval =
  attempt_def raise_for_status_def field_nonempty_def validate_def constant_env_def
  skip_body_def usable_body_def failure_body_def

lemma example_prelude:
  "out \<noteq> [] \<Longrightarrow> main_prelude (example_args out 365) = Some (Inr (out, [chunk_may, chunk_june]))"
  by (simp add: main_prelude_def example_args_def date_lt_def scenario_B chunk_may_def
      chunk_june_def)

lemma example_verdicts:
  "validate skip_body = Skippable" "validate usable_body = Usable"
  by (simp_all add: run_eval)

lemma skip_call:
  "call_timeframe (constant_env 200 skip_body) sd ed cs key w
   = (Inr skip_body, w\<lparr>requests := requests w @ [build_params sd ed cs key]\<rparr>)"
  by (rule call_timeframe_first_success) (simp add: run_eval)

lemma usable_call:
  "call_timeframe (constant_env 200 usable_body) sd ed cs key w
   = (Inr usable_body, w\<lparr>requests := requests w @ [build_params sd ed cs key]\<rparr>)"
  by (rule call_timeframe_first_success) (simp add: run_eval)

lemma failure_call:
  "call_timeframe (constant_env 200 failure_body) sd ed cs key w
   = (Inl (FetchFailed (Some (ApiSuccessFalse (Some (JObj [(''code'', JNum 101)]))))),
      w\<lparr>requests := requests w @ [build_params sd ed cs key, build_params sd ed cs key,
                                          build_params sd ed cs key]\<rparr>)"
  by (rule call_timeframe_exhausted) (simp_all add: run_eval)

text \<open>
  Claim C3 says that \<^verbatim>\<open>call_timeframe\<close> makes at most \<open>RETRY_COUNT = 3\<close> requests, one
  for each attempt, that transport errors, unparsable bodies, an HTTP status of 400 or
  more, \<^verbatim>\<open>success=false\<close> and a non-empty \<^verbatim>\<open>error\<close> field are all retried, and that after
  the last attempt it raises FetchFailed with the last cause. The code does all of this
  (lemmas \<open>call_timeframe_log\<close>, \<open>attempt_fails\<close>, \<open>call_timeframe_exhausted\<close>) but for one case:
  for a status of 600 or more it enters the branch \<^verbatim>\<open>if r.status_code >= 400\<close> and logs the
  error, but \<^verbatim>\<open>r.raise_for_status()\<close> raises for 400 to 599 only, so the body is returned
  after one request. The same body with status 500 is retried three times and fails.
\<close>

theorem status_600_is_not_retried:
  "call_timeframe (constant_env 600 usable_body) ''2025-05-15'' ''2025-05-31'' [''USD''] None world0
     = (Inr usable_body,
        world0\<lparr>requests := [build_params ''2025-05-15'' ''2025-05-31'' [''USD''] None]\<rparr>)
   \<and> call_timeframe (constant_env 500 usable_body) ''2025-05-15'' ''2025-05-31'' [''USD''] None world0
     = (Inl (FetchFailed (Some (HTTPError 500))),
        world0\<lparr>requests := [build_params ''2025-05-15'' ''2025-05-31'' [''USD''] None,
                               build_params ''2025-05-15'' ''2025-05-31'' [''USD''] None,
                               build_params ''2025-05-15'' ''2025-05-31'' [''USD''] None]\<rparr>)"
proof -
  have "attempt (net (constant_env 600 usable_body) k) = Inr usable_body" for k
    by (simp add: run_eval)
  from call_timeframe_first_success [OF this]
  have a: "call_timeframe (constant_env 600 usable_body) ''2025-05-15'' ''2025-05-31'' [''USD''] None
      world0 = (Inr usable_body,
        world0\<lparr>requests := [build_params ''2025-05-15'' ''2025-05-31'' [''USD''] None]\<rparr>)"
    by (simp add: world0_def)
  have "attempt (net (constant_env 500 usable_body) k) = Inl (HTTPError 500)" for k
    by (simp add: run_eval)
  from call_timeframe_exhausted [OF this this this]
  have b: "call_timeframe (constant_env 500 usable_body) ''2025-05-15'' ''2025-05-31'' [''USD''] None
      world0 = (Inl (FetchFailed (Some (HTTPError 500))),
        world0\<lparr>requests := [build_params ''2025-05-15'' ''2025-05-31'' [''USD''] None,
                               build_params ''2025-05-15'' ''2025-05-31'' [''USD''] None,
                               build_params ''2025-05-15'' ''2025-05-31'' [''USD''] None]\<rparr>)"
    by (simp add: world0_def)
  from a b show ?thesis by (rule conjI)
qed

text \<open>
  Claim C4. If the run reaches the loop over its chunks, the loop ends without an
  exception (no fetch has failed for good and no write has failed) and the flag
  \<^verbatim>\<open>any_uploaded\<close> is still false, then the run fails with NoDataIngested, the exit status
  is 1, no object has been written and the store has never been called.
\<close>

theorem no_data_ingested:
  assumes "main_prelude a = Some (Inr (out, chunks))"
    and "process_chunks ev a out chunks False world0 = (Inr False, w)"
  shows "main ev a = Some (Inl NoDataIngested, w) \<and> exit_status ev a = Some 1
    \<and> objects w = [] \<and> put_calls w = []"
proof -
  have m: "main ev a = Some (Inl NoDataIngested, w)"
    using assms by (simp add: main_def main_loop_def)
  then have "exit_status ev a = Some 1" by (simp add: exit_status_def)
  moreover from process_chunks_nothing_written [OF assms(2)]
  have "objects w = [] \<and> put_calls w = []" by (simp add: world0_def)
  ultimately show ?thesis using m by simp
qed

theorem no_data_ingested_witness:
  "main_prelude (example_args ''s3://bucket/raw/'' 365)
     = Some (Inr (''s3://bucket/raw/'', [chunk_may, chunk_june]))
   \<and> (\<exists>w. process_chunks (constant_env 200 skip_body) (example_args ''s3://bucket/raw/'' 365)
            ''s3://bucket/raw/'' [chunk_may, chunk_june] False world0 = (Inr False, w)
        \<and> main (constant_env 200 skip_body) (example_args ''s3://bucket/raw/'' 365)
            = Some (Inl NoDataIngested, w)
        \<and> exit_status (constant_env 200 skip_body) (example_args ''s3://bucket/raw/'' 365) = Some 1
        \<and> objects w = [] \<and> put_calls w = [])"
proof -
  let ?a = "example_args ''s3://bucket/raw/'' 365" and ?ev = "constant_env 200 skip_body"
  have p: "main_prelude ?a = Some (Inr (''s3://bucket/raw/'', [chunk_may, chunk_june]))"
    by (rule example_prelude) simp
  obtain w where w: "process_chunks ?ev ?a ''s3://bucket/raw/'' [chunk_may, chunk_june] False world0
      = (Inr False, w)"
    by (simp add: skip_call example_verdicts)
  from no_data_ingested [OF p w] p w show ?thesis by blast
qed

text \<open>
  Claim C5. If the run has processed the chunks \<open>pre\<close> and the fetch of the next chunk
  \<open>c\<close> fails, then the run ends with that failure, which is FetchFailed with the last
  cause, and with exit status 1; the requests of the whole run are those made for \<open>pre\<close>
  and the \<open>RETRY_COUNT\<close> requests for \<open>c\<close>, so that no later chunk is fetched, and the
  object store is as it was before \<open>c\<close>: nothing is written for \<open>c\<close> or for a later
  chunk.
\<close>

theorem fetch_failure_aborts_run:
  assumes "main_prelude a = Some (Inr (out, pre @ c # post))"
    and "process_chunks ev a out pre False world0 = (Inr any_uploaded, w1)"
    and "call_timeframe ev (isoformat (start_date c)) (isoformat (end_date c))
           (arg_currencies a) (arg_access_key a) w1 = (Inl err, w2)"
  shows "main ev a = Some (Inl err, w2) \<and> exit_status ev a = Some 1
    \<and> (\<exists>cause. err = FetchFailed (Some cause))
    \<and> requests w2 = requests w1 @ replicate RETRY_COUNT
         (build_params (isoformat (start_date c)) (isoformat (end_date c))
            (arg_currencies a) (arg_access_key a))
    \<and> put_calls w2 = put_calls w1 \<and> objects w2 = objects w1"
proof -
  from process_chunks_fetch_error [OF assms(3)]
  have "process_chunks ev a out (c # post) any_uploaded w1 = (Inl err, w2)" .
  with assms(1,2) have m: "main ev a = Some (Inl err, w2)" by (rule main_aborts)
  from call_timeframe_log [OF assms(3)] obtain cause where
    c: "err = FetchFailed (Some cause)"
    and l: "requests w2 = requests w1 @ replicate RETRY_COUNT
         (build_params (isoformat (start_date c)) (isoformat (end_date c))
            (arg_currencies a) (arg_access_key a))"
      "put_calls w2 = put_calls w1" "objects w2 = objects w1"
    by auto
  from m c have "exit_status ev a = Some 1" by (simp add: exit_status_def)
  with m c l show ?thesis by simp
qed

theorem fetch_failure_aborts_run_witness:
  "main_prelude (example_args ''s3://bucket/raw/'' 365)
     = Some (Inr (''s3://bucket/raw/'', [] @ chunk_may # [chunk_june]))
   \<and> process_chunks (constant_env 200 failure_body) (example_args ''s3://bucket/raw/'' 365)
        ''s3://bucket/raw/'' [] False world0 = (Inr False, world0)
   \<and> (\<exists>err w2. call_timeframe (constant_env 200 failure_body)
          (isoformat (start_date chunk_may)) (isoformat (end_date chunk_may))
          (arg_currencies (example_args ''s3://bucket/raw/'' 365))
          (arg_access_key (example_args ''s3://bucket/raw/'' 365)) world0 = (Inl err, w2)
        \<and> main (constant_env 200 failure_body) (example_args ''s3://bucket/raw/'' 365)
            = Some (Inl err, w2)
        \<and> exit_status (constant_env 200 failure_body) (example_args ''s3://bucket/raw/'' 365)
            = Some 1
        \<and> length (requests w2) = 3 \<and> put_calls w2 = [] \<and> objects w2 = [])"
proof -
  let ?a = "example_args ''s3://bucket/raw/'' 365" and ?ev = "constant_env 200 failure_body"
  have p: "main_prelude ?a = Some (Inr (''s3://bucket/raw/'', [] @ chunk_may # [chunk_june]))"
    using example_prelude [of "''s3://bucket/raw/''"] by simp
  have q: "process_chunks ?ev ?a ''s3://bucket/raw/'' [] False world0 = (Inr False, world0)"
    by simp
  obtain err w2 where c: "call_timeframe ?ev (isoformat (start_date chunk_may))
      (isoformat (end_date chunk_may)) (arg_currencies ?a) (arg_access_key ?a) world0
      = (Inl err, w2)"
    by (simp add: failure_call)
  from fetch_failure_aborts_run [OF p q c]
  have "main ?ev ?a = Some (Inl err, w2) \<and> exit_status ?ev ?a = Some 1
      \<and> length (requests w2) = 3 \<and> put_calls w2 = [] \<and> objects w2 = []"
    by (simp add: world0_def RETRY_COUNT_def)
  with p q c show ?thesis by blast
qed

text \<open>
  With \<open>max_days\<close> at most 0 the first part of \<^verbatim>\<open>main\<close> never yields a chunk list.
\<close>

lemma main_prelude_nonpositive:
  assumes "wf_args a" "arg_max_days a \<le> 0"
  shows "main_prelude a = None
    \<or> (\<exists>e. main_prelude a = Some (Inl e)
          \<and> (e = SystemExit 2 \<or> e = ValueError_isoformat \<or> e = ValueError_date
               \<or> e = OverflowError))"
proof (cases "arg_s3_output a")
  case None
  then show ?thesis by (simp add: main_prelude_def)
next
  case (Some out)
  show ?thesis
  proof (cases "out = [] \<or> arg_start a = None \<or> arg_end a = None")
    case True
    with Some show ?thesis by (auto simp add: main_prelude_def split: option.splits)
  next
    case False
    then obtain sdate edate where d: "arg_start a = Some sdate" "arg_end a = Some edate"
      and out: "out \<noteq> []" by auto
    from assms(1) d have v: "valid_date sdate" "valid_date edate" by (simp_all add: wf_args_def)
    define s e where "s = (if date_lt edate sdate then edate else sdate)"
      and "e = (if date_lt edate sdate then sdate else edate)"
    have vs: "valid_date s" "valid_date e" and le: "date_le s e"
      using v by (auto simp add: s_def e_def date_lt_imp_le date_le_total)
    have "main_prelude a =
        (case split_into_month_aligned_chunks s e (arg_max_days a) of
           None \<Rightarrow> None
         | Some (Inl err) \<Rightarrow> Some (Inl err)
         | Some (Inr chunks) \<Rightarrow> Some (Inr (out, chunks)))"
      using Some d out by (simp add: main_prelude_def s_def e_def)
    with split_nonpositive [OF vs le assms(2)] show ?thesis by auto
  qed
qed

text \<open>
  Claim C6, amended. With \<open>max_days\<close> at most 0 the run never makes a request or a write
  and never succeeds, but \<open>max_days\<close> is not validated and nothing rejects it: the run
  either does not terminate (the splitter loops) or ends before the loop over the chunks
  with an exception (a missing output location, a date that does not parse, or the
  \<^verbatim>\<open>OverflowError\<close> or \<^verbatim>\<open>ValueError\<close> of the date arithmetic) and exit status 1 or 2. The
  claim as stated, a rejection before any network activity, fails for \<open>max_days = 0\<close>: the
  run of 2025-05-15 to 2025-06-10 never ends.
\<close>

theorem nonpositive_max_days_never_fetches:
  assumes "wf_args a" "arg_max_days a \<le> 0"
  shows "(main ev a = None \<or> (\<exists>e. main ev a = Some (Inl e, world0)))
    \<and> (exit_status ev a = None \<or> exit_status ev a = Some 1 \<or> exit_status ev a = Some 2)"
  using main_prelude_nonpositive [OF assms]
  by (auto simp add: main_def exit_status_def)

theorem nonpositive_max_days_never_fetches_witness:
  "wf_args (example_args ''s3://bucket/raw/'' 0)
   \<and> arg_max_days (example_args ''s3://bucket/raw/'' 0) \<le> 0
   \<and> (main (constant_env 200 usable_body) (example_args ''s3://bucket/raw/'' 0) = None
      \<or> (\<exists>e. main (constant_env 200 usable_body) (example_args ''s3://bucket/raw/'' 0)
               = Some (Inl e, world0)))
   \<and> (exit_status (constant_env 200 usable_body) (example_args ''s3://bucket/raw/'' 0) = None
      \<or> exit_status (constant_env 200 usable_body) (example_args ''s3://bucket/raw/'' 0) = Some 1
      \<or> exit_status (constant_env 200 usable_body) (example_args ''s3://bucket/raw/'' 0) = Some 2)"
proof -
  have h: "wf_args (example_args ''s3://bucket/raw/'' 0)"
    "arg_max_days (example_args ''s3://bucket/raw/'' 0) \<le> 0"
    by (simp_all add: wf_args_def example_args_def date_eval)
  from nonpositive_max_days_never_fetches [OF h, of "constant_env 200 usable_body"] h
  show ?thesis by simp
qed

theorem max_days_zero_counterexample:
  "arg_max_days (example_args ''s3://bucket/raw/'' 0) \<le> 0
   \<and> main (constant_env 200 usable_body) (example_args ''s3://bucket/raw/'' 0) = None
   \<and> exit_status (constant_env 200 usable_body) (example_args ''s3://bucket/raw/'' 0) = None"
proof -
  let ?s = "\<lparr>year = 2025, month = 5, day = 15\<rparr>" and ?e = "\<lparr>year = 2025, month = 6, day = 10\<rparr>"
  have v: "valid_date ?s" "valid_date ?e" "date_le ?s ?e" by (simp_all add: date_eval)
  have "2 \<le> toordinal ?s" by (simp add: date_eval)
  with split_zero [OF v] have "split_into_month_aligned_chunks ?s ?e 0 = None" by simp
  then have "main_prelude (example_args ''s3://bucket/raw/'' 0) = None"
    by (simp add: main_prelude_def example_args_def date_lt_def)
  then show ?thesis by (simp add: main_def exit_status_def example_args_def)
qed

text \<open>
  Claim C7. A payload that is not a mapping is Skippable; a mapping with a non-empty
  \<^verbatim>\<open>rates\<close> field is Usable; a mapping with neither a non-empty \<^verbatim>\<open>rates\<close> field nor a
  non-empty \<^verbatim>\<open>quotes\<close> field is Skippable; and when the payload fetched for a chunk is
  Skippable, the loop goes on with the next chunk and the object store is as it was
  before the chunk.
\<close>

theorem validator_classification:
  "(\<not> is_dict p \<longrightarrow> validate p = Skippable)
   \<and> (is_dict p \<and> field_nonempty p ''rates'' \<longrightarrow> validate p = Usable)
   \<and> (is_dict p \<and> \<not> field_nonempty p ''rates'' \<and> \<not> field_nonempty p ''quotes''
        \<longrightarrow> validate p = Skippable)
   \<and> (call_timeframe ev (isoformat (start_date c)) (isoformat (end_date c))
          (arg_currencies a) (arg_access_key a) w = (Inr p, w1) \<and> validate p = Skippable
        \<longrightarrow> process_chunks ev a out (c # cs) any_uploaded w
              = process_chunks ev a out cs any_uploaded w1
            \<and> objects w1 = objects w \<and> put_calls w1 = put_calls w)"
proof -
  have "objects w1 = objects w \<and> put_calls w1 = put_calls w"
    if "call_timeframe ev (isoformat (start_date c)) (isoformat (end_date c))
          (arg_currencies a) (arg_access_key a) w = (Inr p, w1)"
    using call_timeframe_log [OF that] by auto
  then show ?thesis by (simp add: validate_def)
qed

theorem validator_classification_witness:
  "\<not> is_dict (JArr []) \<and> validate (JArr []) = Skippable
   \<and> is_dict usable_body \<and> field_nonempty usable_body ''rates'' \<and> validate usable_body = Usable
   \<and> is_dict skip_body \<and> \<not> field_nonempty skip_body ''rates''
   \<and> \<not> field_nonempty skip_body ''quotes'' \<and> validate skip_body = Skippable
   \<and> (\<exists>w1. call_timeframe (constant_env 200 skip_body)
          (isoformat (start_date chunk_may)) (isoformat (end_date chunk_may))
          (arg_currencies (example_args ''s3://bucket/raw/'' 365))
          (arg_access_key (example_args ''s3://bucket/raw/'' 365)) world0 = (Inr skip_body, w1)
        \<and> process_chunks (constant_env 200 skip_body) (example_args ''s3://bucket/raw/'' 365)
             ''s3://bucket/raw/'' (chunk_may # [chunk_june]) False world0
           = process_chunks (constant_env 200 skip_body) (example_args ''s3://bucket/raw/'' 365)
               ''s3://bucket/raw/'' [chunk_june] False w1
        \<and> objects w1 = objects world0 \<and> put_calls w1 = put_calls world0)"
proof -
  let ?a = "example_args ''s3://bucket/raw/'' 365" and ?ev = "constant_env 200 skip_body"
  have h1: "\<not> is_dict (JArr [])" by simp
  have h2: "is_dict usable_body \<and> field_nonempty usable_body ''rates''"
    by (simp add: usable_body_def field_nonempty_def)
  have h3: "is_dict skip_body \<and> \<not> field_nonempty skip_body ''rates''
      \<and> \<not> field_nonempty skip_body ''quotes''"
    by (simp add: skip_body_def field_nonempty_def)
  obtain w1 where c: "call_timeframe ?ev (isoformat (start_date chunk_may))
      (isoformat (end_date chunk_may)) (arg_currencies ?a) (arg_access_key ?a) world0
      = (Inr skip_body, w1)"
    by (simp add: skip_call)
  from validator_classification [of "JArr []"] h1
  have r1: "validate (JArr []) = Skippable" by blast
  from validator_classification [of usable_body] h2
  have r2: "validate usable_body = Usable" by blast
  from validator_classification [of skip_body] h3
  have r3: "validate skip_body = Skippable" by blast
  from validator_classification [of skip_body ?ev chunk_may ?a world0 w1
      "''s3://bucket/raw/''" "[chunk_june]" False] c r3
  have r4: "process_chunks ?ev ?a ''s3://bucket/raw/'' (chunk_may # [chunk_june]) False world0
           = process_chunks ?ev ?a ''s3://bucket/raw/'' [chunk_june] False w1
        \<and> objects w1 = objects world0 \<and> put_calls w1 = put_calls world0" by blast
  from h1 h2 h3 r1 r2 r3 c r4 show ?thesis by blast
qed

text \<open>
  Claim C8, amended. A destination that starts with \<^verbatim>\<open>s3://\<close> and contains
  \<^verbatim>\<open>/currency-script/\<close> or ends in \<^verbatim>\<open>currency.py\<close> is refused with WriteRejected; a
  destination that does not start with \<^verbatim>\<open>s3://\<close> is refused with the \<^verbatim>\<open>ValueError\<close> of the
  first test of \<^verbatim>\<open>upload_json_to_s3\<close>, also when it matches the guard; in both cases the
  store is not called (the log is unchanged); and any exception of the upload ends the run
  with that exception and exit status 1. The claim as stated, WriteRejected for every
  destination that matches the guard, fails for \<^verbatim>\<open>backup/currency.py\<close>.
\<close>

theorem upload_guard_rejects:
  "(prefix ''s3://'' key \<and> (sublist ''/currency-script/'' key \<or> suffix ''currency.py'' key)
      \<longrightarrow> upload_json_to_s3 ev obj key w = (Inl WriteRejected, w))
   \<and> (\<not> prefix ''s3://'' key \<longrightarrow> upload_json_to_s3 ev obj key w = (Inl ValueError_s3_path, w))
   \<and> (main_prelude a = Some (Inr (out, pre @ c # post))
        \<and> process_chunks ev a out pre False world0 = (Inr any_uploaded, w1)
        \<and> call_timeframe ev (isoformat (start_date c)) (isoformat (end_date c))
             (arg_currencies a) (arg_access_key a) w1 = (Inr data, w2)
        \<and> validate data = Usable
        \<and> upload_json_to_s3 ev data (s3_target out c) w2 = (Inl e, w3)
      \<longrightarrow> main ev a = Some (Inl e, w3) \<and> exit_status ev a = Some 1)"
proof -
  have "main ev a = Some (Inl e, w3) \<and> exit_status ev a = Some 1"
    if p: "main_prelude a = Some (Inr (out, pre @ c # post))"
      and q: "process_chunks ev a out pre False world0 = (Inr any_uploaded, w1)"
      and r: "call_timeframe ev (isoformat (start_date c)) (isoformat (end_date c))
             (arg_currencies a) (arg_access_key a) w1 = (Inr data, w2)"
      and u: "validate data = Usable"
      and x: "upload_json_to_s3 ev data (s3_target out c) w2 = (Inl e, w3)"
  proof -
    from process_chunks_write_error [OF r u x]
    have "process_chunks ev a out (c # post) any_uploaded w1 = (Inl e, w3)" .
    with p q have m: "main ev a = Some (Inl e, w3)" by (rule main_aborts)
    from upload_error(1) [OF x] m show ?thesis by (auto simp add: exit_status_def)
  qed
  then show ?thesis by (simp add: upload_json_to_s3_def)
qed

lemma guarded_target:
  "prefix ''s3://'' (s3_target ''s3://bucket/currency-script/raw'' c)"
  "sublist ''/currency-script/'' (s3_target ''s3://bucket/currency-script/raw'' c)"
proof -
  have e: "s3_target ''s3://bucket/currency-script/raw'' c
      = ''s3://bucket'' @ ''/currency-script/'' @ (''raw/year='' @ fmt04 (year (start_date c))
         @ ''/month='' @ fmt02 (month (start_date c))
         @ ''/'' @ ''timeframe_'' @ isoformat (start_date c) @ ''_to_''
         @ isoformat (end_date c) @ ''.json'')"
    by (simp add: s3_target_def rstrip_slash_def)
  show "prefix ''s3://'' (s3_target ''s3://bucket/currency-script/raw'' c)"
    by (simp add: s3_target_def rstrip_slash_def)
  show "sublist ''/currency-script/'' (s3_target ''s3://bucket/currency-script/raw'' c)"
    unfolding e by (rule sublist_appendI)
qed

theorem upload_guard_rejects_witness:
  "prefix ''s3://'' ''s3://bucket/raw/currency.py''
   \<and> suffix ''currency.py'' ''s3://bucket/raw/currency.py''
   \<and> upload_json_to_s3 (constant_env 200 usable_body) usable_body ''s3://bucket/raw/currency.py''
        world0 = (Inl WriteRejected, world0)
   \<and> \<not> prefix ''s3://'' ''bucket/raw/x.json''
   \<and> upload_json_to_s3 (constant_env 200 usable_body) usable_body ''bucket/raw/x.json'' world0
        = (Inl ValueError_s3_path, world0)
   \<and> main_prelude (example_args ''s3://bucket/currency-script/raw'' 365)
       = Some (Inr (''s3://bucket/currency-script/raw'', [] @ chunk_may # [chunk_june]))
   \<and> validate usable_body = Usable
   \<and> (\<exists>w2. call_timeframe (constant_env 200 usable_body)
          (isoformat (start_date chunk_may)) (isoformat (end_date chunk_may))
          (arg_currencies (example_args ''s3://bucket/currency-script/raw'' 365))
          (arg_access_key (example_args ''s3://bucket/currency-script/raw'' 365)) world0
          = (Inr usable_body, w2)
        \<and> upload_json_to_s3 (constant_env 200 usable_body) usable_body
            (s3_target ''s3://bucket/currency-script/raw'' chunk_may) w2 = (Inl WriteRejected, w2)
        \<and> main (constant_env 200 usable_body) (example_args ''s3://bucket/currency-script/raw'' 365)
            = Some (Inl WriteRejected, w2)
        \<and> exit_status (constant_env 200 usable_body)
            (example_args ''s3://bucket/currency-script/raw'' 365) = Some 1)"
proof -
  let ?out = "''s3://bucket/currency-script/raw''"
  let ?a = "example_args ?out 365" and ?ev = "constant_env 200 usable_body"
  have k1: "prefix ''s3://'' ''s3://bucket/raw/currency.py''
      \<and> (sublist ''/currency-script/'' ''s3://bucket/raw/currency.py''
         \<or> suffix ''currency.py'' ''s3://bucket/raw/currency.py'')"
    by (simp add: suffix_to_prefix)
  have k2: "\<not> prefix ''s3://'' ''bucket/raw/x.json''" by simp
  have p: "main_prelude ?a = Some (Inr (?out, [] @ chunk_may # [chunk_june]))"
    using example_prelude [of ?out] by simp
  have q: "process_chunks ?ev ?a ?out [] False world0 = (Inr False, world0)" by simp
  obtain w2 where r: "call_timeframe ?ev (isoformat (start_date chunk_may))
      (isoformat (end_date chunk_may)) (arg_currencies ?a) (arg_access_key ?a) world0
      = (Inr usable_body, w2)"
    by (simp add: usable_call)
  note u = example_verdicts(2)
  from upload_guard_rejects [of "''s3://bucket/raw/currency.py''" ?ev usable_body world0] k1
  have r1: "upload_json_to_s3 ?ev usable_body ''s3://bucket/raw/currency.py'' world0
      = (Inl WriteRejected, world0)" by blast
  from upload_guard_rejects [of "''bucket/raw/x.json''" ?ev usable_body world0] k2
  have r2: "upload_json_to_s3 ?ev usable_body ''bucket/raw/x.json'' world0
      = (Inl ValueError_s3_path, world0)" by blast
  from upload_guard_rejects [of "s3_target ?out chunk_may" ?ev usable_body w2] guarded_target
  have x: "upload_json_to_s3 ?ev usable_body (s3_target ?out chunk_may) w2
      = (Inl WriteRejected, w2)" by blast
  from upload_guard_rejects [of _ ?ev _ _ ?a ?out "[]" chunk_may "[chunk_june]" False world0
      usable_body w2 WriteRejected w2] p q r u x
  have r3: "main ?ev ?a = Some (Inl WriteRejected, w2) \<and> exit_status ?ev ?a = Some 1" by blast
  from k1 k2 p u r x r1 r2 r3 show ?thesis by (auto simp add: suffix_to_prefix)
qed

theorem upload_guard_counterexample:
  "suffix ''currency.py'' ''backup/currency.py''
   \<and> upload_json_to_s3 (constant_env 200 usable_body) usable_body ''backup/currency.py'' world0
       = (Inl ValueError_s3_path, world0)
   \<and> sublist ''/currency-script/'' ''bucket/currency-script/x.json''
   \<and> upload_json_to_s3 (constant_env 200 usable_body) usable_body
         ''bucket/currency-script/x.json'' world0
       = (Inl ValueError_s3_path, world0)"
proof -
  have "''bucket/currency-script/x.json'' = ''bucket'' @ ''/currency-script/'' @ ''x.json''"
    by simp
  then have "sublist ''/currency-script/'' ''bucket/currency-script/x.json''"
    by (simp only: sublist_appendI)
  then show ?thesis by (simp add: upload_json_to_s3_def suffix_to_prefix)
qed

end
